theory Spec2Isabelle
  imports Main "HOL-Library.Sublist" "HOL-Library.Multiset"
begin

section \<open>Domain model (package domain)\<close>

text \<open>
  The Go enums are named integer constants (\<open>type Side int8\<close>, \<open>type OrderType int8\<close>,
  \<open>type EventType int8\<close>); a struct literal that leaves the field out holds the zero
  value, which for \<open>Side\<close> is neither \<open>Buy\<close> nor \<open>Sell\<close>. The model keeps them as
  integers with the constants of the source, since the code only compares them for equality.
\<close>

type_synonym Side = int

definition Buy :: Side where
  "Buy = 1"

definition Sell :: Side where
  "Sell = - 1"

type_synonym OrderType = int

definition LimitOrder :: OrderType where
  "LimitOrder = 0"

definition MarketOrder :: OrderType where
  "MarketOrder = 1"

definition CancelOrder :: OrderType where
  "CancelOrder = 2"

text \<open>
  \<open>int64\<close> fields are modelled as \<open>int\<close>; every arithmetic operation the source performs
  on them is followed by \<open>wrap64\<close>, the two's complement wrap-around of Go. \<open>uint64\<close>
  identifiers and counters are \<open>nat\<close>, incremented modulo \<open>2 ^ 64\<close>.
\<close>

definition wrap64 :: "int \<Rightarrow> int" where
  "wrap64 x = (x + 2 ^ 63) mod 2 ^ 64 - 2 ^ 63"

definition int64 :: "int \<Rightarrow> bool" where
  "int64 x = (- (2 ^ 63) \<le> x \<and> x < 2 ^ 63)"

definition inc_u64 :: "nat \<Rightarrow> nat" where
  "inc_u64 n = (n + 1) mod 2 ^ 64"

record Order =
  ID :: nat
  TraderID :: string
  Side :: Side
  Type :: OrderType
  Price :: int
  Qty :: int
  RemainingQty :: int
  DecisionTime :: int
  ArrivalTime :: int
  SeqNo :: nat
  CancelID :: nat
  QueuePos :: int

record Trade =
  TradeID :: nat
  BuyOrderID :: nat
  SellOrderID :: nat
  BuyTrader :: string
  SellTrader :: string
  TradePrice :: int
  TradeQty :: int
  TradeTimestamp :: int
  PassiveOrderID :: nat
  AggressorOrderID :: nat
  RestingQueuePos :: int

record BBO =
  BidPrice :: int
  BidQty :: int
  AskPrice :: int
  AskQty :: int
  MidPrice :: int

section \<open>Order book (package orderbook)\<close>

record PriceLevel =
  LevelPrice :: int
  Orders :: "Order list"

text \<open>
  \<open>orderIndex\<close> holds pointers to the very orders that sit in the levels. The model keeps
  a copy of the order under its id and updates the copy whenever the matcher changes the
  order in its level, which is what a shared pointer shows.
\<close>

record Book =
  Bids :: "PriceLevel list"
  Asks :: "PriceLevel list"
  orderIndex :: "nat \<rightharpoonup> Order"
  nextTradeID :: nat

definition zeroBBO :: BBO where
  "zeroBBO = \<lparr>BidPrice = 0, BidQty = 0, AskPrice = 0, AskQty = 0, MidPrice = 0\<rparr>"

definition New :: Book where
  "New = \<lparr>Bids = [], Asks = [], orderIndex = Map.empty, nextTradeID = 0\<rparr>"

definition min64 :: "int \<Rightarrow> int \<Rightarrow> int" where
  "min64 a b = (if a < b then a else b)"

definition TotalQty :: "PriceLevel \<Rightarrow> int" where
  "TotalQty pl = foldl (\<lambda>total ord. wrap64 (total + RemainingQty ord)) 0 (Orders pl)"

text \<open>Go's integer division truncates towards zero.\<close>

definition quot :: "int \<Rightarrow> int \<Rightarrow> int" where
  "quot a b = sgn a * sgn b * (\<bar>a\<bar> div \<bar>b\<bar>)"

definition bookBBO :: "Book \<Rightarrow> BBO" where
  "bookBBO b =
    (let bbo1 = (case Bids b of [] \<Rightarrow> zeroBBO
                 | l # _ \<Rightarrow> zeroBBO\<lparr>BidPrice := LevelPrice l, BidQty := TotalQty l\<rparr>);
         bbo2 = (case Asks b of [] \<Rightarrow> bbo1
                 | l # _ \<Rightarrow> bbo1\<lparr>AskPrice := LevelPrice l, AskQty := TotalQty l\<rparr>)
     in if BidPrice bbo2 > 0 \<and> AskPrice bbo2 > 0
        then bbo2\<lparr>MidPrice := quot (wrap64 (BidPrice bbo2 + AskPrice bbo2)) 2\<rparr>
        else bbo2)"

subsection \<open>Matching\<close>

text \<open>
  The state that \<open>match\<close> changes while it runs: the incoming order, the trades appended
  so far, the order index and the trade-id counter.
\<close>

record MatchSt =
  mIncoming :: Order
  mTrades :: "Trade list"
  mIndex :: "nat \<rightharpoonup> Order"
  mNextID :: nat

definition mkTrade :: "nat \<Rightarrow> Order \<Rightarrow> Order \<Rightarrow> int \<Rightarrow> int \<Rightarrow> nat \<Rightarrow> Trade" where
  "mkTrade tid incoming resting fillQty timestamp i =
    (if Side incoming = Buy
     then \<lparr>TradeID = tid, BuyOrderID = ID incoming, SellOrderID = ID resting,
           BuyTrader = TraderID incoming, SellTrader = TraderID resting,
           TradePrice = Price resting, TradeQty = fillQty, TradeTimestamp = timestamp,
           PassiveOrderID = ID resting, AggressorOrderID = ID incoming,
           RestingQueuePos = int i + 1\<rparr>
     else \<lparr>TradeID = tid, BuyOrderID = ID resting, SellOrderID = ID incoming,
           BuyTrader = TraderID resting, SellTrader = TraderID incoming,
           TradePrice = Price resting, TradeQty = fillQty, TradeTimestamp = timestamp,
           PassiveOrderID = ID resting, AggressorOrderID = ID incoming,
           RestingQueuePos = int i + 1\<rparr>)"

text \<open>
  The inner loop of \<open>match\<close>, \<open>for i := 0; i < len(level.Orders) && incoming.RemainingQty > 0\<close>:
  the list argument is \<open>level.Orders[i:]\<close>, the result is what the loop leaves of it. A
  resting order whose remaining quantity reaches zero is deleted from the index and from
  the slice and \<open>i\<close> stays; otherwise \<open>i\<close> advances.
\<close>

fun walkLevel :: "int \<Rightarrow> nat \<Rightarrow> Order list \<Rightarrow> MatchSt \<Rightarrow> Order list \<times> MatchSt" where
  "walkLevel timestamp i [] st = ([], st)"
| "walkLevel timestamp i (resting # rest) st =
    (if RemainingQty (mIncoming st) > 0 then
       (let incoming = mIncoming st;
            fillQty = min64 (RemainingQty incoming) (RemainingQty resting);
            incoming' = incoming\<lparr>RemainingQty := wrap64 (RemainingQty incoming - fillQty)\<rparr>;
            resting' = resting\<lparr>RemainingQty := wrap64 (RemainingQty resting - fillQty)\<rparr>;
            tid = inc_u64 (mNextID st);
            trade = mkTrade tid incoming resting fillQty timestamp i;
            st' = st\<lparr>mIncoming := incoming', mTrades := mTrades st @ [trade], mNextID := tid\<rparr>
        in if RemainingQty resting' \<le> 0
           then walkLevel timestamp i rest (st'\<lparr>mIndex := (mIndex st)(ID resting := None)\<rparr>)
           else (let (os, st'') = walkLevel timestamp (i + 1) rest
                                    (st'\<lparr>mIndex := (mIndex st)(ID resting \<mapsto> resting')\<rparr>)
                 in (resting' # os, st'')))
     else (resting # rest, st))"

lemma walkLevel_done:
  "RemainingQty (mIncoming st) \<le> 0 \<Longrightarrow> walkLevel timestamp i os st = (os, st)"
  by (cases os) simp_all

lemma walkLevel_exhausts:
  "walkLevel timestamp i os st = (os', st') \<Longrightarrow> os' = [] \<or> RemainingQty (mIncoming st') \<le> 0"
proof (induction os arbitrary: i st os' st')
  case Nil
  then show ?case by simp
next
  case (Cons resting rest)
  show ?case
  proof (cases "RemainingQty (mIncoming st) > 0")
    case False
    with Cons.prems show ?thesis by simp
  next
    case True
    let ?fill = "min64 (RemainingQty (mIncoming st)) (RemainingQty resting)"
    show ?thesis
    proof (cases "wrap64 (RemainingQty resting - ?fill) \<le> 0")
      case gone: True
      with True Cons.prems Cons.IH show ?thesis
        by (simp add: Let_def)
    next
      case kept: False
      have "?fill \<noteq> RemainingQty resting"
        using kept by (auto simp: wrap64_def)
      then have "?fill = RemainingQty (mIncoming st)"
        by (simp add: min64_def split: if_splits)
      then have zero: "wrap64 (RemainingQty (mIncoming st) - ?fill) = 0"
        by (simp add: wrap64_def)
      show ?thesis
        using Cons.prems True kept zero
        by (auto simp: Let_def walkLevel_done split: prod.splits)
    qed
  qed
qed

subsection \<open>What one level gives: a closed form of the inner loop\<close>

text \<open>
  On resting orders whose remaining quantity is positive and within \<open>int64\<close>, the inner loop
  computes the following pure functions of the incoming quantity \<open>q\<close> and the orders of the
  level: the orders it leaves, the quantity left of the incoming order, the fills in the
  order they happen, and from the fills the trades, the trade-id counter and the index.
\<close>

lemma wrap64_id: "- (2 ^ 63) \<le> x \<Longrightarrow> x < 2 ^ 63 \<Longrightarrow> wrap64 x = x"
  by (simp add: wrap64_def)

fun restOrders :: "int \<Rightarrow> Order list \<Rightarrow> Order list" where
  "restOrders q [] = []"
| "restOrders q (r # rs) =
    (if q \<le> 0 then r # rs
     else if q < RemainingQty r then r\<lparr>RemainingQty := RemainingQty r - q\<rparr> # rs
     else restOrders (q - RemainingQty r) rs)"

fun leftQty :: "int \<Rightarrow> Order list \<Rightarrow> int" where
  "leftQty q [] = q"
| "leftQty q (r # rs) =
    (if q \<le> 0 then q
     else if q < RemainingQty r then 0
     else leftQty (q - RemainingQty r) rs)"

fun levelFills :: "int \<Rightarrow> Order list \<Rightarrow> (Order \<times> int) list" where
  "levelFills q [] = []"
| "levelFills q (r # rs) =
    (if q > 0 then (r, min q (RemainingQty r)) # levelFills (q - min q (RemainingQty r)) rs
     else [])"

fun indexAfter :: "(nat \<rightharpoonup> Order) \<Rightarrow> (Order \<times> int) list \<Rightarrow> (nat \<rightharpoonup> Order)" where
  "indexAfter idx [] = idx"
| "indexAfter idx ((r, f) # fs) =
    indexAfter (idx(ID r := (if RemainingQty r - f \<le> 0 then None
                             else Some (r\<lparr>RemainingQty := RemainingQty r - f\<rparr>)))) fs"

fun fillTrades :: "Order \<Rightarrow> int \<Rightarrow> nat \<Rightarrow> nat \<Rightarrow> (Order \<times> int) list \<Rightarrow> Trade list" where
  "fillTrades incoming timestamp tid i [] = []"
| "fillTrades incoming timestamp tid i ((r, f) # fs) =
    mkTrade (inc_u64 tid) incoming r f timestamp i #
    fillTrades incoming timestamp (inc_u64 tid) i fs"

fun tradeIDAfter :: "nat \<Rightarrow> 'a list \<Rightarrow> nat" where
  "tradeIDAfter tid [] = tid"
| "tradeIDAfter tid (x # xs) = tradeIDAfter (inc_u64 tid) xs"

lemma mkTrade_remaining [simp]:
  "mkTrade tid (incoming\<lparr>RemainingQty := x\<rparr>) r f timestamp i = mkTrade tid incoming r f timestamp i"
  by (simp add: mkTrade_def)

lemma fillTrades_remaining [simp]:
  "fillTrades (incoming\<lparr>RemainingQty := x\<rparr>) timestamp tid i fs = fillTrades incoming timestamp tid i fs"
  by (induction fs arbitrary: tid) auto

lemma levelFills_nonpos [simp]: "q \<le> 0 \<Longrightarrow> levelFills q os = []"
  by (cases os) simp_all
lemma restOrders_nonpos [simp]: "q \<le> 0 \<Longrightarrow> restOrders q os = os"
  by (cases os) simp_all
lemma leftQty_nonpos [simp]: "q \<le> 0 \<Longrightarrow> leftQty q os = q"
  by (cases os) simp_all

definition restingOK :: "Order \<Rightarrow> bool" where
  "restingOK r = (0 < RemainingQty r \<and> RemainingQty r < 2 ^ 63)"

lemma walkLevel_partial:
  assumes "0 < RemainingQty (mIncoming st)" "RemainingQty (mIncoming st) < RemainingQty r" "restingOK r"
  shows "walkLevel timestamp i (r # rest) st =
     (r\<lparr>RemainingQty := RemainingQty r - RemainingQty (mIncoming st)\<rparr> # rest,
      st\<lparr>mIncoming := (mIncoming st)\<lparr>RemainingQty := 0\<rparr>,
         mTrades := mTrades st @ [mkTrade (inc_u64 (mNextID st)) (mIncoming st) r (RemainingQty (mIncoming st)) timestamp i],
         mNextID := inc_u64 (mNextID st),
         mIndex := (mIndex st)(ID r \<mapsto> r\<lparr>RemainingQty := RemainingQty r - RemainingQty (mIncoming st)\<rparr>)\<rparr>)"
proof -
  have f: "min64 (RemainingQty (mIncoming st)) (RemainingQty r) = RemainingQty (mIncoming st)"
    using assms by (simp add: min64_def)
  have w: "wrap64 (RemainingQty r - RemainingQty (mIncoming st)) = RemainingQty r - RemainingQty (mIncoming st)"
    using assms by (intro wrap64_id) (auto simp: restingOK_def)
  show ?thesis
    using assms f w by (simp add: Let_def walkLevel_done wrap64_def)
qed

lemma walkLevel_full:
  assumes "0 < RemainingQty (mIncoming st)" "RemainingQty r \<le> RemainingQty (mIncoming st)" "restingOK r"
    "RemainingQty (mIncoming st) < 2 ^ 63"
  shows "walkLevel timestamp i (r # rest) st =
     walkLevel timestamp i rest
      (st\<lparr>mIncoming := (mIncoming st)\<lparr>RemainingQty := RemainingQty (mIncoming st) - RemainingQty r\<rparr>,
         mTrades := mTrades st @ [mkTrade (inc_u64 (mNextID st)) (mIncoming st) r (RemainingQty r) timestamp i],
         mNextID := inc_u64 (mNextID st),
         mIndex := (mIndex st)(ID r := None)\<rparr>)"
proof -
  have f: "min64 (RemainingQty (mIncoming st)) (RemainingQty r) = RemainingQty r"
    using assms by (simp add: min64_def)
  have w: "wrap64 (RemainingQty (mIncoming st) - RemainingQty r) = RemainingQty (mIncoming st) - RemainingQty r"
    using assms by (intro wrap64_id) (auto simp: restingOK_def)
  show ?thesis
    using assms f w by (simp add: Let_def wrap64_def)
qed

lemma walkLevel_char:
  assumes "\<forall>r\<in>set os. restingOK r" "RemainingQty (mIncoming st) < 2 ^ 63"
  shows "walkLevel timestamp i os st =
     (restOrders (RemainingQty (mIncoming st)) os,
      st\<lparr>mIncoming := (mIncoming st)\<lparr>RemainingQty := leftQty (RemainingQty (mIncoming st)) os\<rparr>,
         mTrades := mTrades st @ fillTrades (mIncoming st) timestamp (mNextID st) i
                                   (levelFills (RemainingQty (mIncoming st)) os),
         mNextID := tradeIDAfter (mNextID st) (levelFills (RemainingQty (mIncoming st)) os),
         mIndex := indexAfter (mIndex st) (levelFills (RemainingQty (mIncoming st)) os)\<rparr>)"
  using assms
proof (induction os arbitrary: st)
  case Nil
  then show ?case by simp
next
  case (Cons r rest)
  let ?q = "RemainingQty (mIncoming st)"
  consider "?q \<le> 0" | "0 < ?q" "?q < RemainingQty r" | "0 < ?q" "RemainingQty r \<le> ?q"
    by linarith
  then show ?case
  proof cases
    case 1
    then show ?thesis by (simp add: walkLevel_done)
  next
    case 2
    with Cons.prems have r: "restingOK r" by simp
    show ?thesis
      using 2 r by (simp add: walkLevel_partial fun_upd_def del: walkLevel.simps)
  next
    case 3
    with Cons.prems have r: "restingOK r" by simp
    show ?thesis
      using 3 r Cons.prems
      apply (subst walkLevel_full; (simp del: walkLevel.simps)?)
      apply (subst Cons.IH; (simp del: walkLevel.simps)?)
      apply (simp add: restingOK_def fun_upd_def del: walkLevel.simps)
      done
  qed
qed


text \<open>
  The outer loop of \<open>match\<close>. It takes the head level again when the inner loop left
  orders in it, and then stops because the incoming order has nothing left
  (\<open>walkLevel_exhausts\<close>), which is also why the loop terminates.
\<close>

function matchLoop :: "int \<Rightarrow> PriceLevel list \<Rightarrow> MatchSt \<Rightarrow> PriceLevel list \<times> MatchSt" where
  "matchLoop timestamp oppositeSide st =
    (if RemainingQty (mIncoming st) > 0 \<and> oppositeSide \<noteq> [] then
       (let level = hd oppositeSide; incoming = mIncoming st
        in if Type incoming = LimitOrder \<and> Side incoming = Buy \<and> Price incoming < LevelPrice level
           then (oppositeSide, st)
           else if Type incoming = LimitOrder \<and> Side incoming = Sell \<and> Price incoming > LevelPrice level
           then (oppositeSide, st)
           else (case walkLevel timestamp 0 (Orders level) st of
                   (os, st') \<Rightarrow>
                     matchLoop timestamp
                       (if os = [] then tl oppositeSide else level\<lparr>Orders := os\<rparr> # tl oppositeSide)
                       st'))
     else (oppositeSide, st))"
  by pat_completeness auto
termination
proof (relation "measure (\<lambda>(timestamp, oppositeSide, st).
          2 * length oppositeSide + (if RemainingQty (mIncoming st) > 0 then 1 else 0))",
       goal_cases)
  case 1
  show ?case by simp
next
  case (2 timestamp oppositeSide st level incoming os st')
  then have w: "walkLevel timestamp 0 (Orders level) st = (os, st')"
    by simp
  from 2 have ne: "oppositeSide \<noteq> []" and pos: "RemainingQty (mIncoming st) > 0"
    by simp_all
  show ?case
  proof (cases "os = []")
    case True
    with ne pos show ?thesis by (cases oppositeSide) simp_all
  next
    case False
    with walkLevel_exhausts [OF w] have "RemainingQty (mIncoming st') \<le> 0" by simp
    with False ne pos show ?thesis by (cases oppositeSide) simp_all
  qed
qed

declare matchLoop.simps [simp del]

subsection \<open>What a side gives: a closed form of the outer loop\<close>

text \<open>
  \<open>crosses\<close> is the negation of the two price checks that break the outer loop: a Limit
  buy priced below the level, a Limit sell priced above it.
\<close>

definition crosses :: "Order \<Rightarrow> PriceLevel \<Rightarrow> bool" where
  "crosses incoming level =
    (\<not> (Type incoming = LimitOrder \<and> Side incoming = Buy \<and> Price incoming < LevelPrice level) \<and>
     \<not> (Type incoming = LimitOrder \<and> Side incoming = Sell \<and> Price incoming > LevelPrice level))"

lemma crosses_remaining [simp]: "crosses (incoming\<lparr>RemainingQty := x\<rparr>) l = crosses incoming l"
  by (simp add: crosses_def)

fun sideFills :: "Order \<Rightarrow> int \<Rightarrow> PriceLevel list \<Rightarrow> (Order \<times> int) list" where
  "sideFills incoming q [] = []"
| "sideFills incoming q (l # ls) =
    (if q > 0 \<and> crosses incoming l
     then levelFills q (Orders l) @ sideFills incoming (leftQty q (Orders l)) ls
     else [])"

fun sideRest :: "Order \<Rightarrow> int \<Rightarrow> PriceLevel list \<Rightarrow> PriceLevel list" where
  "sideRest incoming q [] = []"
| "sideRest incoming q (l # ls) =
    (if q > 0 \<and> crosses incoming l
     then (if restOrders q (Orders l) = [] then sideRest incoming (leftQty q (Orders l)) ls
           else l\<lparr>Orders := restOrders q (Orders l)\<rparr> # ls)
     else l # ls)"

fun sideLeft :: "Order \<Rightarrow> int \<Rightarrow> PriceLevel list \<Rightarrow> int" where
  "sideLeft incoming q [] = q"
| "sideLeft incoming q (l # ls) =
    (if q > 0 \<and> crosses incoming l then sideLeft incoming (leftQty q (Orders l)) ls else q)"

lemma sideFills_remaining [simp]:
  "sideFills (incoming\<lparr>RemainingQty := x\<rparr>) q ls = sideFills incoming q ls"
  by (induction ls arbitrary: q) auto

lemma sideRest_remaining [simp]:
  "sideRest (incoming\<lparr>RemainingQty := x\<rparr>) q ls = sideRest incoming q ls"
  by (induction ls arbitrary: q) auto

lemma sideLeft_remaining [simp]:
  "sideLeft (incoming\<lparr>RemainingQty := x\<rparr>) q ls = sideLeft incoming q ls"
  by (induction ls arbitrary: q) auto

lemma sideFills_nonpos [simp]: "q \<le> 0 \<Longrightarrow> sideFills incoming q ls = []"
  by (cases ls) simp_all
lemma sideRest_nonpos [simp]: "q \<le> 0 \<Longrightarrow> sideRest incoming q ls = ls"
  by (cases ls) simp_all
lemma sideLeft_nonpos [simp]: "q \<le> 0 \<Longrightarrow> sideLeft incoming q ls = q"
  by (cases ls) simp_all

lemma leftQty_le: "\<forall>r\<in>set os. restingOK r \<Longrightarrow> leftQty q os \<le> q"
proof (induction os arbitrary: q)
  case Nil
  then show ?case by simp
next
  case (Cons a os)
  from Cons.prems have "leftQty (q - RemainingQty a) os \<le> q - RemainingQty a"
    by (intro Cons.IH) simp
  with Cons.prems show ?case by (auto simp: restingOK_def)
qed

lemma leftQty_rest: "\<forall>r\<in>set os. restingOK r \<Longrightarrow> restOrders q os \<noteq> [] \<Longrightarrow> leftQty q os \<le> 0"
  by (induction os arbitrary: q) (auto simp: restingOK_def)

lemma fillTrades_append:
  "fillTrades incoming timestamp tid i (xs @ ys) =
   fillTrades incoming timestamp tid i xs @ fillTrades incoming timestamp (tradeIDAfter tid xs) i ys"
  by (induction xs arbitrary: tid) auto

lemma tradeIDAfter_append: "tradeIDAfter tid (xs @ ys) = tradeIDAfter (tradeIDAfter tid xs) ys"
  by (induction xs arbitrary: tid) auto

lemma indexAfter_append: "indexAfter idx (xs @ ys) = indexAfter (indexAfter idx xs) ys"
  by (induction xs arbitrary: idx) auto

lemma matchLoop_stop:
  "RemainingQty (mIncoming st) \<le> 0 \<or> opp = [] \<Longrightarrow> matchLoop timestamp opp st = (opp, st)"
  by (subst matchLoop.simps) auto

lemma matchLoop_char:
  assumes "\<forall>l\<in>set opp. \<forall>r\<in>set (Orders l). restingOK r" "RemainingQty (mIncoming st) < 2 ^ 63"
  shows "matchLoop timestamp opp st =
     (sideRest (mIncoming st) (RemainingQty (mIncoming st)) opp,
      st\<lparr>mIncoming := (mIncoming st)\<lparr>RemainingQty := sideLeft (mIncoming st) (RemainingQty (mIncoming st)) opp\<rparr>,
         mTrades := mTrades st @ fillTrades (mIncoming st) timestamp (mNextID st) 0
                                   (sideFills (mIncoming st) (RemainingQty (mIncoming st)) opp),
         mNextID := tradeIDAfter (mNextID st) (sideFills (mIncoming st) (RemainingQty (mIncoming st)) opp),
         mIndex := indexAfter (mIndex st) (sideFills (mIncoming st) (RemainingQty (mIncoming st)) opp)\<rparr>)"
  using assms
proof (induction opp arbitrary: st)
  case Nil
  then show ?case by (simp add: matchLoop_stop)
next
  case (Cons l ls)
  let ?inc = "mIncoming st"
  let ?q = "RemainingQty ?inc"
  show ?case
  proof (cases "0 < ?q \<and> crosses ?inc l")
    case False
    then show ?thesis
      by (subst matchLoop.simps) (auto simp: crosses_def)
  next
    case True
    have os: "\<forall>r\<in>set (Orders l). restingOK r" using Cons.prems by simp
    note w = walkLevel_char [OF os Cons.prems(2), of timestamp 0]
    let ?st' = "st\<lparr>mIncoming := ?inc\<lparr>RemainingQty := leftQty ?q (Orders l)\<rparr>,
         mTrades := mTrades st @ fillTrades ?inc timestamp (mNextID st) 0 (levelFills ?q (Orders l)),
         mNextID := tradeIDAfter (mNextID st) (levelFills ?q (Orders l)),
         mIndex := indexAfter (mIndex st) (levelFills ?q (Orders l))\<rparr>"
    have step: "matchLoop timestamp (l # ls) st =
        matchLoop timestamp
          (if restOrders ?q (Orders l) = [] then ls else l\<lparr>Orders := restOrders ?q (Orders l)\<rparr> # ls) ?st'"
      using True by (subst matchLoop.simps) (auto simp: crosses_def w Let_def)
    show ?thesis
    proof (cases "restOrders ?q (Orders l) = []")
      case empty: True
      have lt: "RemainingQty (mIncoming ?st') < 2 ^ 63"
        using leftQty_le [OF os, of ?q] Cons.prems(2) by simp
      have rest: "\<forall>l\<in>set ls. \<forall>r\<in>set (Orders l). restingOK r" using Cons.prems by simp
      show ?thesis
        using True empty
        by (simp add: step Cons.IH [OF rest lt] fillTrades_append tradeIDAfter_append indexAfter_append)
    next
      case nonempty: False
      have "leftQty ?q (Orders l) \<le> 0" using leftQty_rest [OF os nonempty] .
      then show ?thesis
        using True nonempty by (simp add: step matchLoop_stop)
    qed
  qed
qed


text \<open>
  \<open>match\<close>: the opposite side is \<open>Asks\<close> for a \<open>Buy\<close> and \<open>Bids\<close> for every other side.
  The result is the book, the incoming order as the matcher left it, and the trades.
\<close>

definition match :: "Book \<Rightarrow> Order \<Rightarrow> int \<Rightarrow> Book \<times> Order \<times> Trade list" where
  "match b incoming timestamp =
    (let st0 = \<lparr>mIncoming = incoming, mTrades = [], mIndex = orderIndex b, mNextID = nextTradeID b\<rparr>
     in if Side incoming = Buy
        then (case matchLoop timestamp (Asks b) st0 of
                (asks, st) \<Rightarrow>
                  (b\<lparr>Asks := asks, orderIndex := mIndex st, nextTradeID := mNextID st\<rparr>,
                   mIncoming st, mTrades st))
        else (case matchLoop timestamp (Bids b) st0 of
                (bids, st) \<Rightarrow>
                  (b\<lparr>Bids := bids, orderIndex := mIndex st, nextTradeID := mNextID st\<rparr>,
                   mIncoming st, mTrades st)))"

subsection \<open>Insertion\<close>

text \<open>
  Go's \<open>sort.Search(n, f)\<close>, from the standard library: binary search for the smallest
  index in \<open>[0, n)\<close> at which \<open>f\<close> holds, \<open>n\<close> if there is none, for an \<open>f\<close> that is
  false on a prefix and true on the rest.
\<close>

function searchLoop :: "(nat \<Rightarrow> bool) \<Rightarrow> nat \<Rightarrow> nat \<Rightarrow> nat" where
  "searchLoop f i j =
    (if i < j then (let h = (i + j) div 2
                    in if \<not> f h then searchLoop f (h + 1) j else searchLoop f i h)
     else i)"
  by pat_completeness auto
termination
  by (relation "measure (\<lambda>(f, i, j). j - i)") auto

declare searchLoop.simps [simp del]

definition sortSearch :: "nat \<Rightarrow> (nat \<Rightarrow> bool) \<Rightarrow> nat" where
  "sortSearch n f = searchLoop f 0 n"

definition insertIntoLevels :: "PriceLevel list \<Rightarrow> Order \<Rightarrow> bool \<Rightarrow> PriceLevel list" where
  "insertIntoLevels levels order descending =
    (let idx = sortSearch (length levels)
                 (\<lambda>i. if descending then LevelPrice (levels ! i) \<le> Price order
                      else LevelPrice (levels ! i) \<ge> Price order)
     in if idx < length levels \<and> LevelPrice (levels ! idx) = Price order
        then levels[idx := (levels ! idx)\<lparr>Orders := Orders (levels ! idx) @ [order]\<rparr>]
        else take idx levels @ [\<lparr>LevelPrice = Price order, Orders = [order]\<rparr>] @ drop idx levels)"

definition insert :: "Book \<Rightarrow> Order \<Rightarrow> Book" where
  "insert b order =
    (let b' = b\<lparr>orderIndex := (orderIndex b)(ID order \<mapsto> order)\<rparr>
     in if Side order = Buy
        then b'\<lparr>Bids := insertIntoLevels (Bids b') order True\<rparr>
        else b'\<lparr>Asks := insertIntoLevels (Asks b') order False\<rparr>)"

subsection \<open>Removal\<close>

text \<open>
  The inner loop of \<open>removeOrder\<close>: the orders of a level without the first one that has
  the id, \<open>None\<close> when the level has no such order.
\<close>

fun removeFromOrders :: "nat \<Rightarrow> Order list \<Rightarrow> Order list option" where
  "removeFromOrders oid [] = None"
| "removeFromOrders oid (x # xs) =
    (if ID x = oid then Some xs
     else (case removeFromOrders oid xs of None \<Rightarrow> None | Some ys \<Rightarrow> Some (x # ys)))"

text \<open>
  The outer loop: levels of another price are skipped, and so is a level of the order's
  price that does not hold the order; the first level that holds it loses it, and is
  dropped when that empties it, and the loop returns.
\<close>

fun removeFromLevels :: "Order \<Rightarrow> PriceLevel list \<Rightarrow> PriceLevel list" where
  "removeFromLevels order [] = []"
| "removeFromLevels order (level # levels) =
    (if LevelPrice level \<noteq> Price order then level # removeFromLevels order levels
     else (case removeFromOrders (ID order) (Orders level) of
             None \<Rightarrow> level # removeFromLevels order levels
           | Some os \<Rightarrow> if os = [] then levels else level\<lparr>Orders := os\<rparr> # levels))"

definition removeOrder :: "Book \<Rightarrow> Order \<Rightarrow> Book" where
  "removeOrder b order =
    (if Side order = Buy then b\<lparr>Bids := removeFromLevels order (Bids b)\<rparr>
     else b\<lparr>Asks := removeFromLevels order (Asks b)\<rparr>)"

subsection \<open>Processing an order\<close>

text \<open>
  \<open>ProcessOrder\<close> returns the trades and the BBO and changes the book and the order it
  was given; the model returns all four. An order type that is none of the three panics.
\<close>

datatype error = UnknownOrderType

record ProcessResult =
  rBook :: Book
  rOrder :: Order
  rTrades :: "Trade list"
  rBBO :: BBO

definition processLimit :: "Book \<Rightarrow> Order \<Rightarrow> int \<Rightarrow> ProcessResult" where
  "processLimit b order timestamp =
    (case match b (order\<lparr>RemainingQty := Qty order\<rparr>) timestamp of
       (b1, order1, trades) \<Rightarrow>
         (let b2 = (if RemainingQty order1 > 0 then insert b1 order1 else b1)
          in \<lparr>rBook = b2, rOrder = order1, rTrades = trades, rBBO = bookBBO b2\<rparr>))"

definition processMarket :: "Book \<Rightarrow> Order \<Rightarrow> int \<Rightarrow> ProcessResult" where
  "processMarket b order timestamp =
    (case match b (order\<lparr>RemainingQty := Qty order\<rparr>) timestamp of
       (b1, order1, trades) \<Rightarrow>
         \<lparr>rBook = b1, rOrder = order1, rTrades = trades, rBBO = bookBBO b1\<rparr>)"

definition processCancel :: "Book \<Rightarrow> Order \<Rightarrow> ProcessResult" where
  "processCancel b cancel =
    (case orderIndex b (CancelID cancel) of
       None \<Rightarrow> \<lparr>rBook = b, rOrder = cancel, rTrades = [], rBBO = bookBBO b\<rparr>
     | Some target \<Rightarrow>
         if RemainingQty target \<le> 0
         then \<lparr>rBook = b, rOrder = cancel, rTrades = [], rBBO = bookBBO b\<rparr>
         else (let target' = target\<lparr>RemainingQty := 0\<rparr>;
                   b1 = removeOrder b target';
                   b2 = b1\<lparr>orderIndex := (orderIndex b1)(ID target' := None)\<rparr>
               in \<lparr>rBook = b2, rOrder = cancel, rTrades = [], rBBO = bookBBO b2\<rparr>))"

definition ProcessOrder :: "Book \<Rightarrow> Order \<Rightarrow> int \<Rightarrow> error + ProcessResult" where
  "ProcessOrder b order timestamp =
    (if Type order = LimitOrder then Inr (processLimit b order timestamp)
     else if Type order = MarketOrder then Inr (processMarket b order timestamp)
     else if Type order = CancelOrder then Inr (processCancel b order)
     else Inl UnknownOrderType)"

subsection \<open>The invariant check\<close>

fun strictlyDescending :: "PriceLevel list \<Rightarrow> bool" where
  "strictlyDescending (l1 # l2 # ls) = (LevelPrice l2 < LevelPrice l1 \<and> strictlyDescending (l2 # ls))"
| "strictlyDescending ls = True"

fun strictlyAscending :: "PriceLevel list \<Rightarrow> bool" where
  "strictlyAscending (l1 # l2 # ls) = (LevelPrice l1 < LevelPrice l2 \<and> strictlyAscending (l2 # ls))"
| "strictlyAscending ls = True"

definition notCrossed :: "Book \<Rightarrow> bool" where
  "notCrossed b =
    (case (Bids b, Asks b) of
       (bid # _, ask # _) \<Rightarrow> LevelPrice bid < LevelPrice ask
     | _ \<Rightarrow> True)"

definition allOrders :: "Book \<Rightarrow> Order list" where
  "allOrders b = concat (map Orders (Bids b)) @ concat (map Orders (Asks b))"

text \<open>
  \<open>AssertInvariants\<close> panics on the first check that fails; the model is the conjunction
  of the six checks, true when no panic is raised. \<open>len(b.orderIndex)\<close> is the number of
  keys of the map.
\<close>

definition AssertInvariants :: "Book \<Rightarrow> bool" where
  "AssertInvariants b =
    (strictlyDescending (Bids b) \<and>
     strictlyAscending (Asks b) \<and>
     notCrossed b \<and>
     list_all (\<lambda>level. Orders level \<noteq> []) (Bids b) \<and>
     list_all (\<lambda>level. Orders level \<noteq> []) (Asks b) \<and>
     list_all (\<lambda>ord. \<not> RemainingQty ord < 0 \<and> RemainingQty ord \<noteq> 0) (allOrders b) \<and>
     length (allOrders b) = card (dom (orderIndex b)))"

section \<open>Sample orders\<close>

text \<open>The order literals of the repository's book tests (\<open>makeLimit\<close>, \<open>makeMarket\<close>, \<open>makeCancel\<close>).\<close>

definition makeLimit :: "nat \<Rightarrow> Side \<Rightarrow> int \<Rightarrow> int \<Rightarrow> Order" where
  "makeLimit oid side price qty =
    \<lparr>ID = oid, TraderID = ''test'', Side = side, Type = LimitOrder, Price = price, Qty = qty,
     RemainingQty = 0, DecisionTime = 0, ArrivalTime = 0, SeqNo = 0, CancelID = 0, QueuePos = 0\<rparr>"

definition makeMarket :: "nat \<Rightarrow> Side \<Rightarrow> int \<Rightarrow> Order" where
  "makeMarket oid side qty =
    \<lparr>ID = oid, TraderID = ''test'', Side = side, Type = MarketOrder, Price = 0, Qty = qty,
     RemainingQty = 0, DecisionTime = 0, ArrivalTime = 0, SeqNo = 0, CancelID = 0, QueuePos = 0\<rparr>"

definition makeCancel :: "nat \<Rightarrow> nat \<Rightarrow> Order" where
  "makeCancel oid cancelID =
    \<lparr>ID = oid, TraderID = ''test'', Side = 0, Type = CancelOrder, Price = 0, Qty = 0,
     RemainingQty = 0, DecisionTime = 0, ArrivalTime = 0, SeqNo = 0, CancelID = cancelID, QueuePos = 0\<rparr>"

text \<open>A book with one resting sell order of 10 at price 100, as \<open>insert\<close> leaves it.\<close>

definition restingSell :: Order where
  "restingSell = (makeLimit 1 Sell 100 10)\<lparr>RemainingQty := 10\<rparr>"

definition oneAskBook :: Book where
  "oneAskBook = \<lparr>Bids = [], Asks = [\<lparr>LevelPrice = 100, Orders = [restingSell]\<rparr>],
                  orderIndex = [1 \<mapsto> restingSell], nextTradeID = 0\<rparr>"

section \<open>Cancel of an unknown or filled order\<close>

text \<open>
  Claim C6. Processing a Cancel order whose target id is absent from the order index, or
  whose indexed target has no remaining quantity, is a silent no-op: the result carries
  no trades, the book (levels, order index, trade-id counter) is the book as it was, and
  the returned BBO is the snapshot computed from that book.
\<close>

theorem cancel_unknown_is_noop:
  assumes "Type cancel = CancelOrder"
    and "orderIndex b (CancelID cancel) = None \<or>
         (\<exists>target. orderIndex b (CancelID cancel) = Some target \<and> RemainingQty target \<le> 0)"
  shows "ProcessOrder b cancel timestamp =
           Inr \<lparr>rBook = b, rOrder = cancel, rTrades = [], rBBO = bookBBO b\<rparr>"
proof -
  have "processCancel b cancel = \<lparr>rBook = b, rOrder = cancel, rTrades = [], rBBO = bookBBO b\<rparr>"
    using assms(2) by (auto simp: processCancel_def)
  with assms(1) show ?thesis
    by (simp add: ProcessOrder_def LimitOrder_def MarketOrder_def CancelOrder_def)
qed

theorem cancel_unknown_is_noop_witness:
  "ProcessOrder oneAskBook (makeCancel 3 99) 2 =
     Inr \<lparr>rBook = oneAskBook, rOrder = makeCancel 3 99, rTrades = [], rBBO = bookBBO oneAskBook\<rparr>
   \<and> Type (makeCancel 3 99) = CancelOrder
   \<and> orderIndex oneAskBook (CancelID (makeCancel 3 99)) = None"
proof -
  have t: "Type (makeCancel 3 99) = CancelOrder"
    by (simp add: makeCancel_def)
  have a: "orderIndex oneAskBook (CancelID (makeCancel 3 99)) = None"
    by (simp add: makeCancel_def oneAskBook_def)
  from cancel_unknown_is_noop [of "makeCancel 3 99" oneAskBook 2] t a show ?thesis
    by blast
qed

section \<open>Facts about the closed forms\<close>

definition sideOrders :: "PriceLevel list \<Rightarrow> Order list" where
  "sideOrders levels = concat (map Orders levels)"

lemma sideOrders_simps [simp]:
  "sideOrders [] = []"
  "sideOrders (l # ls) = Orders l @ sideOrders ls"
  by (simp_all add: sideOrders_def)

lemma levelFills_total:
  "\<forall>r\<in>set os. restingOK r \<Longrightarrow> leftQty q os + sum_list (map snd (levelFills q os)) = q"
proof (induction os arbitrary: q)
  case Nil
  then show ?case by simp
next
  case (Cons a os)
  from Cons.prems have "leftQty (q - RemainingQty a) os
      + sum_list (map snd (levelFills (q - RemainingQty a) os)) = q - RemainingQty a"
    by (intro Cons.IH) simp
  with Cons.prems show ?case by (auto simp: restingOK_def)
qed

lemma sideFills_total:
  "\<forall>r\<in>set (sideOrders ls). restingOK r \<Longrightarrow>
   sideLeft incoming q ls + sum_list (map snd (sideFills incoming q ls)) = q"
proof (induction ls arbitrary: q)
  case Nil
  then show ?case by simp
next
  case (Cons l ls)
  have a: "leftQty q (Orders l) + sum_list (map snd (levelFills q (Orders l))) = q"
    using Cons.prems by (intro levelFills_total) simp
  have b: "sideLeft incoming (leftQty q (Orders l)) ls
           + sum_list (map snd (sideFills incoming (leftQty q (Orders l)) ls)) = leftQty q (Orders l)"
    using Cons.prems by (intro Cons.IH) simp
  from a b show ?case by simp
qed

lemma fillTrades_qty [simp]:
  "map TradeQty (fillTrades incoming timestamp tid i fs) = map snd fs"
  by (induction fs arbitrary: tid) (auto simp: mkTrade_def)

lemma fillTrades_view:
  "map (\<lambda>t. (PassiveOrderID t, TradePrice t, TradeQty t, RestingQueuePos t))
       (fillTrades incoming timestamp tid i fs)
   = map (\<lambda>(r, f). (ID r, Price r, f, int i + 1)) fs"
  by (induction fs arbitrary: tid) (auto simp: mkTrade_def)

lemma fillTrades_passive:
  "map TradeQty (filter (\<lambda>t. PassiveOrderID t = k) (fillTrades incoming timestamp tid i fs))
   = map snd (filter (\<lambda>(r, f). ID r = k) fs)"
  by (induction fs arbitrary: tid) (auto simp: mkTrade_def)

definition qtyOf :: "nat \<Rightarrow> Order list \<Rightarrow> int" where
  "qtyOf k os = sum_list (map RemainingQty (filter (\<lambda>ord. ID ord = k) os))"

lemma qtyOf_simps [simp]:
  "qtyOf k [] = 0"
  "qtyOf k (x # xs) = (if ID x = k then RemainingQty x else 0) + qtyOf k xs"
  "qtyOf k (xs @ ys) = qtyOf k xs + qtyOf k ys"
  by (simp_all add: qtyOf_def)

lemma restOrders_qtyOf:
  "\<forall>r\<in>set os. restingOK r \<Longrightarrow>
   qtyOf k (restOrders q os) = qtyOf k os - sum_list (map snd (filter (\<lambda>(r, f). ID r = k) (levelFills q os)))"
  by (induction os arbitrary: q) (auto simp: restingOK_def)

lemma sideRest_qtyOf:
  "\<forall>r\<in>set (sideOrders ls). restingOK r \<Longrightarrow>
   qtyOf k (sideOrders (sideRest incoming q ls))
   = qtyOf k (sideOrders ls) - sum_list (map snd (filter (\<lambda>(r, f). ID r = k) (sideFills incoming q ls)))"
proof (induction ls arbitrary: q)
  case Nil
  then show ?case by simp
next
  case (Cons l ls)
  have a: "qtyOf k (restOrders q (Orders l)) = qtyOf k (Orders l)
            - sum_list (map snd (filter (\<lambda>(r, f). ID r = k) (levelFills q (Orders l))))"
    using Cons.prems by (intro restOrders_qtyOf) simp
  have b: "qtyOf k (sideOrders (sideRest incoming (leftQty q (Orders l)) ls))
   = qtyOf k (sideOrders ls) - sum_list (map snd (filter (\<lambda>(r, f). ID r = k) (sideFills incoming (leftQty q (Orders l)) ls)))"
    using Cons.prems by (intro Cons.IH) simp
  have c: "restOrders q (Orders l) \<noteq> [] \<Longrightarrow> leftQty q (Orders l) \<le> 0"
    using Cons.prems by (intro leftQty_rest) simp_all
  show ?case
  proof (cases "0 < q \<and> crosses incoming l")
    case False
    then show ?thesis by auto
  next
    case True
    show ?thesis
    proof (cases "restOrders q (Orders l) = []")
      case True
      with \<open>0 < q \<and> crosses incoming l\<close> a b show ?thesis by simp
    next
      case False
      with c have "leftQty q (Orders l) \<le> 0" by simp
      with False \<open>0 < q \<and> crosses incoming l\<close> a show ?thesis by simp
    qed
  qed
qed

lemma restOrders_suffix: "suffix (map ID (restOrders q os)) (map ID os)"
  by (induction os arbitrary: q) (auto simp: suffix_Cons)

lemma sideRest_ids_suffix:
  "suffix (map ID (sideOrders (sideRest incoming q ls))) (map ID (sideOrders ls))"
proof (induction ls arbitrary: q)
  case Nil
  then show ?case by simp
next
  case (Cons l ls)
  have a: "suffix (map ID (restOrders q (Orders l)) @ map ID (sideOrders ls)) (map ID (Orders l) @ map ID (sideOrders ls))"
    using restOrders_suffix [of q "Orders l"] by (auto simp: suffix_def)
  have b: "suffix (map ID (sideOrders (sideRest incoming (leftQty q (Orders l)) ls))) (map ID (Orders l) @ map ID (sideOrders ls))"
    using Cons.IH [of "leftQty q (Orders l)"] by (auto simp: suffix_def)
  from a b show ?case by auto
qed

lemma sideRest_levels_suffix:
  "suffix (map LevelPrice (sideRest incoming q ls)) (map LevelPrice ls)"
  by (induction ls arbitrary: q) (auto simp: suffix_Cons)

lemma restOrders_member:
  assumes "\<forall>r\<in>set os. restingOK r" "x \<in> set (restOrders q os)"
  shows "\<exists>r\<in>set os. x = r\<lparr>RemainingQty := RemainingQty x\<rparr> \<and> restingOK x"
  using assms
proof (induction os arbitrary: q)
  case Nil
  then show ?case by simp
next
  case (Cons a os)
  have keep: "y \<in> set (a # os) \<Longrightarrow> \<exists>r\<in>set (a # os). y = r\<lparr>RemainingQty := RemainingQty y\<rparr> \<and> restingOK y" for y
    using Cons.prems(1) by (intro bexI [of _ y]) auto
  consider "q \<le> 0" | "0 < q" "q < RemainingQty a" | "0 < q" "RemainingQty a \<le> q"
    by linarith
  then show ?case
  proof cases
    case 1
    with Cons.prems keep show ?thesis by simp
  next
    case 2
    with Cons.prems(2) have "x = a\<lparr>RemainingQty := RemainingQty a - q\<rparr> \<or> x \<in> set os"
      by simp
    then show ?thesis
    proof
      assume x: "x = a\<lparr>RemainingQty := RemainingQty a - q\<rparr>"
      then have "restingOK x" using 2 Cons.prems(1) by (simp add: restingOK_def)
      moreover have "x = a\<lparr>RemainingQty := RemainingQty x\<rparr>" using x by simp
      ultimately show ?thesis by auto
    next
      assume "x \<in> set os"
      then show ?thesis using keep by simp
    qed
  next
    case 3
    with Cons.prems(2) have "x \<in> set (restOrders (q - RemainingQty a) os)" by simp
    with Cons.IH [of "q - RemainingQty a"] Cons.prems(1) show ?thesis by auto
  qed
qed

section \<open>Binary search\<close>

lemma searchLoop_bounds: "i \<le> j \<Longrightarrow> i \<le> searchLoop f i j \<and> searchLoop f i j \<le> j"
proof (induction f i j rule: searchLoop.induct)
  case (1 f i j)
  show ?case
  proof (cases "i < j")
    case False
    with 1 show ?thesis by (subst searchLoop.simps, subst (2) searchLoop.simps) simp
  next
    case True
    let ?h = "(i + j) div 2"
    have h: "i \<le> ?h" "?h < j" using True by auto
    show ?thesis
    proof (cases "f ?h")
      case True
      have "searchLoop f i j = searchLoop f i ?h"
        using \<open>i < j\<close> True by (subst searchLoop.simps) (simp add: Let_def)
      moreover have "i \<le> searchLoop f i ?h \<and> searchLoop f i ?h \<le> ?h"
        using 1(2) [OF \<open>i < j\<close> refl] True h by simp
      ultimately show ?thesis using h by simp
    next
      case False
      have "searchLoop f i j = searchLoop f (?h + 1) j"
        using \<open>i < j\<close> False by (subst searchLoop.simps) (simp add: Let_def)
      moreover have "?h + 1 \<le> searchLoop f (?h + 1) j \<and> searchLoop f (?h + 1) j \<le> j"
        using 1(1) [OF \<open>i < j\<close> refl False] h by simp
      ultimately show ?thesis using h by simp
    qed
  qed
qed

lemma searchLoop_split:
  assumes "\<forall>x y. x \<le> y \<and> y < n \<and> f x \<longrightarrow> f y"
    and "i \<le> j" "j \<le> n" "\<forall>x<i. \<not> f x" "\<forall>x. j \<le> x \<and> x < n \<longrightarrow> f x"
  shows "(\<forall>x<searchLoop f i j. \<not> f x) \<and> (\<forall>x. searchLoop f i j \<le> x \<and> x < n \<longrightarrow> f x)"
  using assms
proof (induction f i j rule: searchLoop.induct)
  case (1 f i j)
  show ?case
  proof (cases "i < j")
    case False
    with 1(4) have "i = j" by simp
    moreover have "searchLoop f i j = i" using False by (subst searchLoop.simps) simp
    ultimately show ?thesis using 1(6,7) by simp
  next
    case True
    let ?h = "(i + j) div 2"
    have h: "i \<le> ?h" "?h < j" using True by auto
    show ?thesis
    proof (cases "f ?h")
      case True
      have eq: "searchLoop f i j = searchLoop f i ?h"
        using \<open>i < j\<close> True by (subst searchLoop.simps) (simp add: Let_def)
      have up: "\<forall>x. ?h \<le> x \<and> x < n \<longrightarrow> f x"
        using 1(3) True by blast
      show ?thesis
        unfolding eq
        using 1(2) [OF \<open>i < j\<close> refl _ 1(3)] True h 1(5,6) up by simp
    next
      case False
      have eq: "searchLoop f i j = searchLoop f (?h + 1) j"
        using \<open>i < j\<close> False by (subst searchLoop.simps) (simp add: Let_def)
      have low: "\<forall>x<?h + 1. \<not> f x"
      proof (intro allI impI)
        fix x assume "x < ?h + 1"
        then have "x \<le> ?h" by simp
        moreover have "?h < n" using h 1(5) by simp
        ultimately show "\<not> f x" using 1(3) False by blast
      qed
      show ?thesis
        unfolding eq
        using 1(1) [OF \<open>i < j\<close> refl False 1(3)] h 1(5,7) low by simp
    qed
  qed
qed

lemma sortSearch_le: "sortSearch n f \<le> n"
  using searchLoop_bounds [of 0 n f] by (simp add: sortSearch_def)

lemma sortSearch_split:
  assumes "\<forall>x y. x \<le> y \<and> y < n \<and> f x \<longrightarrow> f y"
  shows "(\<forall>x<sortSearch n f. \<not> f x) \<and> (\<forall>x. sortSearch n f \<le> x \<and> x < n \<longrightarrow> f x)"
  unfolding sortSearch_def using assms by (intro searchLoop_split) auto

section \<open>Insertion at the sorted position\<close>

definition better :: "bool \<Rightarrow> int \<Rightarrow> int \<Rightarrow> bool" where
  "better descending a b = (if descending then a > b else a < b)"

lemma better_trans: "better d a b \<Longrightarrow> better d b c \<Longrightarrow> better d a c"
  by (auto simp: better_def split: if_splits)

lemma better_irrefl [simp]: "\<not> better d a a"
  by (simp add: better_def)

lemma better_total: "\<not> better d a b \<Longrightarrow> a \<noteq> b \<Longrightarrow> better d b a"
  by (auto simp: better_def split: if_splits)

lemma better_asym: "better d a b \<Longrightarrow> \<not> better d b a"
  by (auto simp: better_def split: if_splits)

definition specInsert :: "PriceLevel list \<Rightarrow> Order \<Rightarrow> bool \<Rightarrow> PriceLevel list" where
  "specInsert levels order descending =
    (if \<exists>l\<in>set levels. LevelPrice l = Price order
     then map (\<lambda>l. if LevelPrice l = Price order then l\<lparr>Orders := Orders l @ [order]\<rparr> else l) levels
     else filter (\<lambda>l. better descending (LevelPrice l) (Price order)) levels
          @ [\<lparr>LevelPrice = Price order, Orders = [order]\<rparr>]
          @ filter (\<lambda>l. better descending (Price order) (LevelPrice l)) levels)"

definition insertIdx :: "PriceLevel list \<Rightarrow> Order \<Rightarrow> bool \<Rightarrow> nat" where
  "insertIdx levels order descending =
     sortSearch (length levels)
       (\<lambda>i. if descending then LevelPrice (levels ! i) \<le> Price order
            else LevelPrice (levels ! i) \<ge> Price order)"

lemma insertIntoLevels_idx:
  "insertIntoLevels levels order descending =
    (let idx = insertIdx levels order descending
     in if idx < length levels \<and> LevelPrice (levels ! idx) = Price order
        then levels[idx := (levels ! idx)\<lparr>Orders := Orders (levels ! idx) @ [order]\<rparr>]
        else take idx levels @ [\<lparr>LevelPrice = Price order, Orders = [order]\<rparr>] @ drop idx levels)"
  by (simp add: insertIntoLevels_def insertIdx_def)

lemma insertIdx_le: "insertIdx levels order d \<le> length levels"
  by (simp add: insertIdx_def sortSearch_le)

lemma sideOrders_append [simp]: "sideOrders (xs @ ys) = sideOrders xs @ sideOrders ys"
  by (simp add: sideOrders_def)

lemma insertIntoLevels_mset:
  "mset (sideOrders (insertIntoLevels levels order d)) = mset (sideOrders levels) + {#order#}"
proof -
  let ?k = "insertIdx levels order d"
  have split: "sideOrders levels = sideOrders (take ?k levels) @ sideOrders (drop ?k levels)"
    by (simp flip: sideOrders_append)
  show ?thesis
  proof (cases "?k < length levels \<and> LevelPrice (levels ! ?k) = Price order")
    case True
    then have k: "?k < length levels" by simp
    have l: "levels = take ?k levels @ (levels ! ?k) # drop (Suc ?k) levels"
      using k by (rule id_take_nth_drop)
    have u: "levels[?k := (levels ! ?k)\<lparr>Orders := Orders (levels ! ?k) @ [order]\<rparr>]
        = take ?k levels @ (levels ! ?k)\<lparr>Orders := Orders (levels ! ?k) @ [order]\<rparr> # drop (Suc ?k) levels"
      using k by (simp add: upd_conv_take_nth_drop)
    have "mset (sideOrders levels) = mset (sideOrders (take ?k levels)) + mset (Orders (levels ! ?k))
            + mset (sideOrders (drop (Suc ?k) levels))"
      by (subst l) simp
    moreover have "mset (sideOrders (insertIntoLevels levels order d))
          = mset (sideOrders (take ?k levels)) + (mset (Orders (levels ! ?k)) + {#order#})
            + mset (sideOrders (drop (Suc ?k) levels))"
      using True by (simp add: insertIntoLevels_idx u Let_def)
    ultimately show ?thesis by simp
  next
    case False
    then have "insertIntoLevels levels order d
        = take ?k levels @ [\<lparr>LevelPrice = Price order, Orders = [order]\<rparr>] @ drop ?k levels"
      by (auto simp: insertIntoLevels_idx Let_def)
    then show ?thesis by (subst split) simp
  qed
qed

lemma insertIdx_split:
  assumes "sorted_wrt (better d) (map LevelPrice levels)"
  shows "(\<forall>x<insertIdx levels order d. better d (LevelPrice (levels ! x)) (Price order)) \<and>
         (\<forall>x. insertIdx levels order d \<le> x \<and> x < length levels
              \<longrightarrow> \<not> better d (LevelPrice (levels ! x)) (Price order))"
proof -
  let ?f = "\<lambda>i. \<not> better d (LevelPrice (levels ! i)) (Price order)"
  have mono: "\<forall>x y. x \<le> y \<and> y < length levels \<and> ?f x \<longrightarrow> ?f y"
  proof (intro allI impI, elim conjE)
    fix x y assume xy: "x \<le> y" "y < length levels" and fx: "?f x"
    show "?f y"
    proof (cases "x = y")
      case True with fx show ?thesis by simp
    next
      case False
      with xy have "x < y" by simp
      with assms xy have "better d (map LevelPrice levels ! x) (map LevelPrice levels ! y)"
        by (intro sorted_wrt_nth_less) simp_all
      with xy \<open>x < y\<close> have "better d (LevelPrice (levels ! x)) (LevelPrice (levels ! y))"
        by simp
      with fx show ?thesis using better_trans [of d "LevelPrice (levels ! x)" "LevelPrice (levels ! y)" "Price order"] by blast
    qed
  qed
  have eq: "insertIdx levels order d = sortSearch (length levels) ?f"
    unfolding insertIdx_def
    by (rule arg_cong [where f = "sortSearch (length levels)"]) (auto simp: better_def fun_eq_iff)
  show ?thesis
    unfolding eq using sortSearch_split [OF mono] by blast
qed

lemma insertIdx_take:
  assumes "sorted_wrt (better d) (map LevelPrice levels)" "l \<in> set (take (insertIdx levels order d) levels)"
  shows "better d (LevelPrice l) (Price order)"
proof -
  from assms(2) obtain i where i: "i < length (take (insertIdx levels order d) levels)"
      "l = take (insertIdx levels order d) levels ! i"
    by (auto simp: in_set_conv_nth)
  then have "i < insertIdx levels order d" "l = levels ! i" by simp_all
  with insertIdx_split [OF assms(1), of order] show ?thesis by blast
qed

lemma insertIdx_drop:
  assumes "sorted_wrt (better d) (map LevelPrice levels)" "l \<in> set (drop (insertIdx levels order d) levels)"
  shows "\<not> better d (LevelPrice l) (Price order)"
proof -
  let ?k = "insertIdx levels order d"
  from assms(2) obtain i where i: "i < length (drop ?k levels)" "l = drop ?k levels ! i"
    by (auto simp: in_set_conv_nth)
  then have "?k \<le> ?k + i" "?k + i < length levels" "l = levels ! (?k + i)"
    using insertIdx_le [of levels order d] by simp_all
  with insertIdx_split [OF assms(1), of order] show ?thesis by blast
qed

lemma insertIdx_unique:
  assumes s: "sorted_wrt (better d) (map LevelPrice levels)"
    and i: "i < length levels" "LevelPrice (levels ! i) = Price order"
  shows "i = insertIdx levels order d"
proof -
  let ?k = "insertIdx levels order d"
  note sp = insertIdx_split [OF s, of order]
  have "\<not> i < ?k"
  proof
    assume "i < ?k"
    with sp have "better d (LevelPrice (levels ! i)) (Price order)" by blast
    with i show False by simp
  qed
  moreover have "\<not> ?k < i"
  proof
    assume lt: "?k < i"
    with s i have "better d (map LevelPrice levels ! ?k) (map LevelPrice levels ! i)"
      by (intro sorted_wrt_nth_less) simp_all
    with lt i have "better d (LevelPrice (levels ! ?k)) (Price order)" by simp
    moreover from lt i sp have "\<not> better d (LevelPrice (levels ! ?k)) (Price order)"
      by (meson le_refl less_trans)
    ultimately show False by simp
  qed
  ultimately show ?thesis by simp
qed

lemma insertIdx_exists:
  assumes s: "sorted_wrt (better d) (map LevelPrice levels)"
  shows "(\<exists>l\<in>set levels. LevelPrice l = Price order)
     \<longleftrightarrow> (insertIdx levels order d < length levels
          \<and> LevelPrice (levels ! insertIdx levels order d) = Price order)"
proof
  assume "\<exists>l\<in>set levels. LevelPrice l = Price order"
  then obtain i where "i < length levels" "LevelPrice (levels ! i) = Price order"
    by (auto simp: in_set_conv_nth)
  with insertIdx_unique [OF s this] show "insertIdx levels order d < length levels
          \<and> LevelPrice (levels ! insertIdx levels order d) = Price order"
    by simp
next
  assume "insertIdx levels order d < length levels
          \<and> LevelPrice (levels ! insertIdx levels order d) = Price order"
  then show "\<exists>l\<in>set levels. LevelPrice l = Price order"
    using nth_mem by blast
qed

lemma insertIntoLevels_spec:
  assumes s: "sorted_wrt (better d) (map LevelPrice levels)"
  shows "insertIntoLevels levels order d = specInsert levels order d"
proof (cases "\<exists>l\<in>set levels. LevelPrice l = Price order")
  case True
  let ?k = "insertIdx levels order d"
  let ?g = "\<lambda>l. if LevelPrice l = Price order then l\<lparr>Orders := Orders l @ [order]\<rparr> else l"
  from True insertIdx_exists [OF s, of order]
  have k: "?k < length levels" "LevelPrice (levels ! ?k) = Price order" by simp_all
  have "levels[?k := (levels ! ?k)\<lparr>Orders := Orders (levels ! ?k) @ [order]\<rparr>] = map ?g levels"
  proof (rule nth_equalityI)
    show "length (levels[?k := (levels ! ?k)\<lparr>Orders := Orders (levels ! ?k) @ [order]\<rparr>]) = length (map ?g levels)"
      by simp
  next
    fix i assume "i < length (levels[?k := (levels ! ?k)\<lparr>Orders := Orders (levels ! ?k) @ [order]\<rparr>])"
    then have i: "i < length levels" by simp
    show "levels[?k := (levels ! ?k)\<lparr>Orders := Orders (levels ! ?k) @ [order]\<rparr>] ! i = map ?g levels ! i"
    proof (cases "i = ?k")
      case True
      with k show ?thesis by simp
    next
      case False
      with insertIdx_unique [OF s i, of order] have "LevelPrice (levels ! i) \<noteq> Price order" by blast
      with False i show ?thesis by simp
    qed
  qed
  with True k show ?thesis
    by (simp add: insertIntoLevels_idx specInsert_def Let_def)
next
  case False
  let ?k = "insertIdx levels order d"
  have a: "filter (\<lambda>l. better d (LevelPrice l) (Price order)) (take ?k levels) = take ?k levels"
    using insertIdx_take [OF s] by (intro filter_True) blast
  have b: "filter (\<lambda>l. better d (LevelPrice l) (Price order)) (drop ?k levels) = []"
    using insertIdx_drop [OF s] by (intro filter_False) blast
  have c: "filter (\<lambda>l. better d (Price order) (LevelPrice l)) (take ?k levels) = []"
    using insertIdx_take [OF s] better_asym by (intro filter_False) blast
  have d: "filter (\<lambda>l. better d (Price order) (LevelPrice l)) (drop ?k levels) = drop ?k levels"
  proof (intro filter_True ballI)
    fix l assume l: "l \<in> set (drop ?k levels)"
    then have "l \<in> set levels" by (rule in_set_dropD)
    with False have "LevelPrice l \<noteq> Price order" by blast
    with insertIdx_drop [OF s l] show "better d (Price order) (LevelPrice l)"
      using better_total by blast
  qed
  have "filter (\<lambda>l. better d (LevelPrice l) (Price order)) levels = take ?k levels"
    using a b by (metis append_Nil2 append_take_drop_id filter_append)
  moreover have "filter (\<lambda>l. better d (Price order) (LevelPrice l)) levels = drop ?k levels"
    using c d by (metis append_Nil append_take_drop_id filter_append)
  moreover have nk: "\<not> (?k < length levels \<and> LevelPrice (levels ! ?k) = Price order)"
    using False insertIdx_exists [OF s, of order] by simp
  moreover have "insertIntoLevels levels order d
      = take ?k levels @ [\<lparr>LevelPrice = Price order, Orders = [order]\<rparr>] @ drop ?k levels"
    using nk by (auto simp: insertIntoLevels_idx Let_def)
  moreover have "specInsert levels order d
      = filter (\<lambda>l. better d (LevelPrice l) (Price order)) levels
          @ [\<lparr>LevelPrice = Price order, Orders = [order]\<rparr>]
          @ filter (\<lambda>l. better d (Price order) (LevelPrice l)) levels"
    using False by (simp add: specInsert_def)
  ultimately show ?thesis by simp
qed

lemma specInsert_prices:
  "LevelPrice ` set (specInsert levels order d) = Set.insert (Price order) (LevelPrice ` set levels)"
proof (cases "\<exists>l\<in>set levels. LevelPrice l = Price order")
  case True
  have "map LevelPrice (specInsert levels order d) = map LevelPrice levels"
    using True by (simp add: specInsert_def o_def if_distrib [of LevelPrice] cong: if_cong)
  then have "LevelPrice ` set (specInsert levels order d) = LevelPrice ` set levels"
    by (metis set_map)
  with True show ?thesis by force
next
  case False
  have "\<And>l. l \<in> set levels \<Longrightarrow> better d (LevelPrice l) (Price order) \<or> better d (Price order) (LevelPrice l)"
    using False better_total by blast
  with False show ?thesis
    by (auto simp: specInsert_def)
qed

lemma specInsert_sorted:
  assumes s: "sorted_wrt (better d) (map LevelPrice levels)"
  shows "sorted_wrt (better d) (map LevelPrice (specInsert levels order d))"
proof (cases "\<exists>l\<in>set levels. LevelPrice l = Price order")
  case True
  have "map LevelPrice (specInsert levels order d) = map LevelPrice levels"
    using True by (simp add: specInsert_def o_def if_distrib [of LevelPrice] cong: if_cong)
  with s show ?thesis by simp
next
  case False
  have s': "sorted_wrt (\<lambda>x y. better d (LevelPrice x) (LevelPrice y)) levels"
    using s by (simp add: sorted_wrt_map)
  have "sorted_wrt (\<lambda>x y. better d (LevelPrice x) (LevelPrice y))
          (filter (\<lambda>l. better d (LevelPrice l) (Price order)) levels
           @ [\<lparr>LevelPrice = Price order, Orders = [order]\<rparr>]
           @ filter (\<lambda>l. better d (Price order) (LevelPrice l)) levels)"
    using s' by (auto simp: sorted_wrt_append sorted_wrt_filter intro: better_trans)
  then have "sorted_wrt (better d) (map LevelPrice
          (filter (\<lambda>l. better d (LevelPrice l) (Price order)) levels
           @ [\<lparr>LevelPrice = Price order, Orders = [order]\<rparr>]
           @ filter (\<lambda>l. better d (Price order) (LevelPrice l)) levels))"
    by (simp only: sorted_wrt_map)
  with False show ?thesis
    by (simp add: specInsert_def)
qed

section \<open>Well-formed books\<close>

definition levelOK :: "bool \<Rightarrow> PriceLevel \<Rightarrow> bool" where
  "levelOK bid level =
    (Orders level \<noteq> [] \<and>
     (\<forall>ord\<in>set (Orders level).
        Price ord = LevelPrice level \<and> (Side ord = Buy) = bid \<and> restingOK ord))"

definition bookOK :: "Book \<Rightarrow> bool" where
  "bookOK b =
    (sorted_wrt (better True) (map LevelPrice (Bids b)) \<and>
     sorted_wrt (better False) (map LevelPrice (Asks b)) \<and>
     (\<forall>bid\<in>set (Bids b). \<forall>ask\<in>set (Asks b). LevelPrice bid < LevelPrice ask) \<and>
     (\<forall>l\<in>set (Bids b). levelOK True l) \<and>
     (\<forall>l\<in>set (Asks b). levelOK False l) \<and>
     distinct (map ID (allOrders b)) \<and>
     (\<forall>k ord. orderIndex b k = Some ord \<longleftrightarrow> ord \<in> set (allOrders b) \<and> ID ord = k))"

lemma allOrders_sides: "allOrders b = sideOrders (Bids b) @ sideOrders (Asks b)"
  by (simp add: allOrders_def sideOrders_def)

lemma levelOK_resting: "\<forall>l\<in>set ls. levelOK bid l \<Longrightarrow> \<forall>r\<in>set (sideOrders ls). restingOK r"
  by (induction ls) (auto simp: levelOK_def)

lemma levelOK_side: "\<forall>l\<in>set ls. levelOK bid l \<Longrightarrow> r \<in> set (sideOrders ls) \<Longrightarrow> (Side r = Buy) = bid"
  by (induction ls) (auto simp: levelOK_def)

lemma restOrders_index:
  assumes "distinct (map ID os)" "\<forall>r\<in>set os. restingOK r"
    and "ID ` S \<inter> ID ` set os = {}"
    and "\<forall>k ord. idx k = Some ord \<longleftrightarrow> (ord \<in> set os \<union> S \<and> ID ord = k)"
  shows "\<forall>k ord. indexAfter idx (levelFills q os) k = Some ord
           \<longleftrightarrow> (ord \<in> set (restOrders q os) \<union> S \<and> ID ord = k)"
  using assms
proof (induction os arbitrary: q idx)
  case Nil
  then show ?case by simp
next
  case (Cons r rest)
  have r: "restingOK r" using Cons.prems(2) by simp
  have fresh: "\<And>x. x \<in> set rest \<union> S \<Longrightarrow> ID x \<noteq> ID r"
  proof -
    fix x assume "x \<in> set rest \<union> S"
    then have x: "ID x \<in> ID ` set rest \<or> ID x \<in> ID ` S" by blast
    have n1: "ID r \<notin> ID ` set rest" using Cons.prems(1) by simp
    have n2: "ID r \<notin> ID ` S" using Cons.prems(3) by auto
    from x n1 n2 show "ID x \<noteq> ID r" by metis
  qed
  consider "q \<le> 0" | "0 < q" "q < RemainingQty r" | "0 < q" "RemainingQty r \<le> q"
    by linarith
  then show ?case
  proof cases
    case 1
    with Cons.prems(4) show ?thesis by simp
  next
    case 2
    let ?r' = "r\<lparr>RemainingQty := RemainingQty r - q\<rparr>"
    have f: "levelFills q (r # rest) = [(r, q)]" using 2 by simp
    have i: "indexAfter idx (levelFills q (r # rest)) = idx(ID r \<mapsto> ?r')"
      using 2 by (subst f) simp
    have ro: "restOrders q (r # rest) = ?r' # rest" using 2 by simp
    show ?thesis
      unfolding i ro
    proof (intro allI)
      fix k ord
      show "((idx(ID r \<mapsto> ?r')) k = Some ord) = (ord \<in> set (?r' # rest) \<union> S \<and> ID ord = k)"
      proof (cases "k = ID r")
        case True
        then show ?thesis using fresh by auto
      next
        case False
        then have "((idx(ID r \<mapsto> ?r')) k = Some ord) = (ord \<in> set (r # rest) \<union> S \<and> ID ord = k)"
          using Cons.prems(4) by simp
        also have "\<dots> = (ord \<in> set (?r' # rest) \<union> S \<and> ID ord = k)"
          using False by auto
        finally show ?thesis .
      qed
    qed
  next
    case 3
    let ?idx1 = "idx(ID r := None)"
    have f: "levelFills q (r # rest) = (r, RemainingQty r) # levelFills (q - RemainingQty r) rest"
      using 3 by simp
    have i: "indexAfter idx (levelFills q (r # rest)) = indexAfter ?idx1 (levelFills (q - RemainingQty r) rest)"
      by (subst f) simp
    have ro: "restOrders q (r # rest) = restOrders (q - RemainingQty r) rest"
      using 3 r by (simp add: restingOK_def)
    have inv: "\<forall>k ord. ?idx1 k = Some ord \<longleftrightarrow> (ord \<in> set rest \<union> S \<and> ID ord = k)"
    proof (intro allI)
      fix k ord
      show "(?idx1 k = Some ord) = (ord \<in> set rest \<union> S \<and> ID ord = k)"
      proof (cases "k = ID r")
        case True
        then show ?thesis using fresh by auto
      next
        case False
        then have "(?idx1 k = Some ord) = (ord \<in> set (r # rest) \<union> S \<and> ID ord = k)"
          using Cons.prems(4) by simp
        also have "\<dots> = (ord \<in> set rest \<union> S \<and> ID ord = k)"
          using False by auto
        finally show ?thesis .
      qed
    qed
    have "\<forall>k ord. indexAfter ?idx1 (levelFills (q - RemainingQty r) rest) k = Some ord
           \<longleftrightarrow> (ord \<in> set (restOrders (q - RemainingQty r) rest) \<union> S \<and> ID ord = k)"
      using Cons.prems(1,2,3) inv by (intro Cons.IH) auto
    then show ?thesis unfolding i ro .
  qed
qed

lemma restOrders_subset_ids: "ID ` set (restOrders q os) \<subseteq> ID ` set os"
  using set_mono_suffix [OF restOrders_suffix [of q os]] by simp

lemma sideRest_index:
  assumes "distinct (map ID (sideOrders ls))" "\<forall>r\<in>set (sideOrders ls). restingOK r"
    and "ID ` S \<inter> ID ` set (sideOrders ls) = {}"
    and "\<forall>k ord. idx k = Some ord \<longleftrightarrow> (ord \<in> set (sideOrders ls) \<union> S \<and> ID ord = k)"
  shows "\<forall>k ord. indexAfter idx (sideFills incoming q ls) k = Some ord
           \<longleftrightarrow> (ord \<in> set (sideOrders (sideRest incoming q ls)) \<union> S \<and> ID ord = k)"
  using assms
proof (induction ls arbitrary: q idx)
  case Nil
  then show ?case by simp
next
  case (Cons l ls)
  let ?os = "Orders l"
  let ?S' = "set (sideOrders ls) \<union> S"
  let ?idx1 = "indexAfter idx (levelFills q ?os)"
  have os: "\<forall>r\<in>set ?os. restingOK r" using Cons.prems(2) by simp
  have lvl: "\<forall>k ord. ?idx1 k = Some ord \<longleftrightarrow> (ord \<in> set (restOrders q ?os) \<union> ?S' \<and> ID ord = k)"
  proof (rule restOrders_index)
    show "distinct (map ID ?os)" using Cons.prems(1) by simp
    show "\<forall>r\<in>set ?os. restingOK r" by (rule os)
    show "ID ` ?S' \<inter> ID ` set ?os = {}" using Cons.prems(1,3) by auto
    show "\<forall>k ord. idx k = Some ord \<longleftrightarrow> (ord \<in> set ?os \<union> ?S' \<and> ID ord = k)"
      using Cons.prems(4) by (simp add: Un_assoc)
  qed
  show ?case
  proof (cases "0 < q \<and> crosses incoming l")
    case False
    with Cons.prems(4) show ?thesis by auto
  next
    case True
    show ?thesis
    proof (cases "restOrders q ?os = []")
      case empty: True
      have "\<forall>k ord. indexAfter ?idx1 (sideFills incoming (leftQty q ?os) ls) k = Some ord
           \<longleftrightarrow> (ord \<in> set (sideOrders (sideRest incoming (leftQty q ?os) ls)) \<union> S \<and> ID ord = k)"
      proof (rule Cons.IH)
        show "distinct (map ID (sideOrders ls))" using Cons.prems(1) by simp
        show "\<forall>r\<in>set (sideOrders ls). restingOK r" using Cons.prems(2) by simp
        show "ID ` S \<inter> ID ` set (sideOrders ls) = {}" using Cons.prems(3) by auto
        show "\<forall>k ord. ?idx1 k = Some ord \<longleftrightarrow> (ord \<in> set (sideOrders ls) \<union> S \<and> ID ord = k)"
          using lvl empty by simp
      qed
      with True empty show ?thesis by (simp add: indexAfter_append)
    next
      case nonempty: False
      have "leftQty q ?os \<le> 0" using leftQty_rest [OF os nonempty] .
      with True nonempty lvl show ?thesis by (simp add: Un_assoc)
    qed
  qed
qed

lemma restOrders_levelOK:
  assumes "levelOK bid l" "restOrders q (Orders l) \<noteq> []"
  shows "levelOK bid (l\<lparr>Orders := restOrders q (Orders l)\<rparr>)"
proof -
  have os: "\<forall>r\<in>set (Orders l). restingOK r" using assms(1) by (simp add: levelOK_def)
  {
    fix x assume "x \<in> set (restOrders q (Orders l))"
    from restOrders_member [OF os this] obtain r where
      r: "r \<in> set (Orders l)" "x = r\<lparr>RemainingQty := RemainingQty x\<rparr>" "restingOK x" by blast
    from r(2) have "Price x = Price r" "Side x = Side r"
      by (metis Order.select_convs(5) Order.surjective Order.update_convs(7),
          metis Order.select_convs(3) Order.surjective Order.update_convs(7))
    with r assms(1) have "Price x = LevelPrice l \<and> (Side x = Buy) = bid \<and> restingOK x"
      by (simp add: levelOK_def)
  }
  with assms(2) show ?thesis by (simp add: levelOK_def)
qed

lemma sideRest_levelOK:
  "\<forall>l\<in>set ls. levelOK bid l \<Longrightarrow> \<forall>l\<in>set (sideRest incoming q ls). levelOK bid l"
  by (induction ls arbitrary: q) (auto simp: restOrders_levelOK)

lemma suffix_sorted_wrt: "suffix xs ys \<Longrightarrow> sorted_wrt P ys \<Longrightarrow> sorted_wrt P xs"
  by (auto simp: suffix_def sorted_wrt_append)

lemma sideRest_sorted:
  "sorted_wrt P (map LevelPrice ls) \<Longrightarrow> sorted_wrt P (map LevelPrice (sideRest incoming q ls))"
  using sideRest_levels_suffix suffix_sorted_wrt by blast

lemma sideRest_prices: "LevelPrice ` set (sideRest incoming q ls) \<subseteq> LevelPrice ` set ls"
  using set_mono_suffix [OF sideRest_levels_suffix [of incoming q ls]] by simp

lemma sideRest_ids: "ID ` set (sideOrders (sideRest incoming q ls)) \<subseteq> ID ` set (sideOrders ls)"
  using set_mono_suffix [OF sideRest_ids_suffix [of incoming q ls]] by simp

lemma sideRest_distinct:
  "distinct (map ID (sideOrders ls)) \<Longrightarrow> distinct (map ID (sideOrders (sideRest incoming q ls)))"
  using sideRest_ids_suffix distinct_suffix by blast

lemma sideLeft_le: "\<forall>r\<in>set (sideOrders ls). restingOK r \<Longrightarrow> sideLeft incoming q ls \<le> q"
proof (induction ls arbitrary: q)
  case Nil
  then show ?case by simp
next
  case (Cons l ls)
  have a: "leftQty q (Orders l) \<le> q" using Cons.prems by (intro leftQty_le) simp
  have b: "sideLeft incoming (leftQty q (Orders l)) ls \<le> leftQty q (Orders l)"
    using Cons.prems by (intro Cons.IH) simp
  from a b show ?case by simp
qed

lemma sideRest_stops:
  assumes "\<forall>r\<in>set (sideOrders ls). restingOK r" "0 < sideLeft incoming q ls"
  shows "sideRest incoming q ls = [] \<or> \<not> crosses incoming (hd (sideRest incoming q ls))"
  using assms
proof (induction ls arbitrary: q)
  case Nil
  then show ?case by simp
next
  case (Cons l ls)
  have os: "\<forall>r\<in>set (Orders l). restingOK r" using Cons.prems(1) by simp
  show ?case
  proof (cases "0 < q \<and> crosses incoming l")
    case False
    with Cons.prems(2) show ?thesis by auto
  next
    case True
    show ?thesis
    proof (cases "restOrders q (Orders l) = []")
      case empty: True
      with True Cons.prems Cons.IH [of "leftQty q (Orders l)"] show ?thesis by simp
    next
      case nonempty: False
      have "leftQty q (Orders l) \<le> 0" using leftQty_rest [OF os nonempty] .
      with True Cons.prems(2) show ?thesis by simp
    qed
  qed
qed

lemma match_Buy:
  assumes "Side incoming = Buy" "\<forall>r\<in>set (sideOrders (Asks b)). restingOK r"
    "RemainingQty incoming < 2 ^ 63"
  shows "match b incoming timestamp =
    (b\<lparr>Asks := sideRest incoming (RemainingQty incoming) (Asks b),
       orderIndex := indexAfter (orderIndex b) (sideFills incoming (RemainingQty incoming) (Asks b)),
       nextTradeID := tradeIDAfter (nextTradeID b) (sideFills incoming (RemainingQty incoming) (Asks b))\<rparr>,
     incoming\<lparr>RemainingQty := sideLeft incoming (RemainingQty incoming) (Asks b)\<rparr>,
     fillTrades incoming timestamp (nextTradeID b) 0 (sideFills incoming (RemainingQty incoming) (Asks b)))"
proof -
  let ?st0 = "\<lparr>mIncoming = incoming, mTrades = [], mIndex = orderIndex b, mNextID = nextTradeID b\<rparr>"
  have a: "\<forall>l\<in>set (Asks b). \<forall>r\<in>set (Orders l). restingOK r"
    using assms(2) by (auto simp: sideOrders_def)
  have q: "RemainingQty (mIncoming ?st0) < 2 ^ 63" using assms(3) by simp
  show ?thesis
    using assms(1) by (simp add: match_def matchLoop_char [OF a q])
qed

lemma match_Sell:
  assumes "Side incoming \<noteq> Buy" "\<forall>r\<in>set (sideOrders (Bids b)). restingOK r"
    "RemainingQty incoming < 2 ^ 63"
  shows "match b incoming timestamp =
    (b\<lparr>Bids := sideRest incoming (RemainingQty incoming) (Bids b),
       orderIndex := indexAfter (orderIndex b) (sideFills incoming (RemainingQty incoming) (Bids b)),
       nextTradeID := tradeIDAfter (nextTradeID b) (sideFills incoming (RemainingQty incoming) (Bids b))\<rparr>,
     incoming\<lparr>RemainingQty := sideLeft incoming (RemainingQty incoming) (Bids b)\<rparr>,
     fillTrades incoming timestamp (nextTradeID b) 0 (sideFills incoming (RemainingQty incoming) (Bids b)))"
proof -
  let ?st0 = "\<lparr>mIncoming = incoming, mTrades = [], mIndex = orderIndex b, mNextID = nextTradeID b\<rparr>"
  have a: "\<forall>l\<in>set (Bids b). \<forall>r\<in>set (Orders l). restingOK r"
    using assms(2) by (auto simp: sideOrders_def)
  have q: "RemainingQty (mIncoming ?st0) < 2 ^ 63" using assms(3) by simp
  show ?thesis
    using assms(1) by (simp add: match_def matchLoop_char [OF a q])
qed

lemma bookOK_resting:
  assumes "bookOK b"
  shows "\<forall>r\<in>set (sideOrders (Asks b)). restingOK r" "\<forall>r\<in>set (sideOrders (Bids b)). restingOK r"
  using assms levelOK_resting by (auto simp: bookOK_def)

lemma sorted_wrt_hd:
  "sorted_wrt P xs \<Longrightarrow> x \<in> set xs \<Longrightarrow> x = hd xs \<or> P (hd xs) x"
  by (cases xs) auto

lemma sideRest_bookOK_Buy:
  assumes ok: "bookOK b"
  shows "bookOK (b\<lparr>Asks := sideRest incoming q (Asks b),
                   orderIndex := indexAfter (orderIndex b) (sideFills incoming q (Asks b)),
                   nextTradeID := n\<rparr>)"
proof -
  let ?asks = "sideRest incoming q (Asks b)"
  have d: "distinct (map ID (sideOrders (Bids b)) @ map ID (sideOrders (Asks b)))"
    using ok by (simp add: bookOK_def allOrders_sides)
  have ids: "ID ` set (sideOrders ?asks) \<subseteq> ID ` set (sideOrders (Asks b))"
    by (rule sideRest_ids)
  have d': "distinct (map ID (sideOrders (Bids b)) @ map ID (sideOrders ?asks))"
    using d ids sideRest_distinct [of "Asks b" incoming q] by auto
  have idx: "\<forall>k ord. indexAfter (orderIndex b) (sideFills incoming q (Asks b)) k = Some ord
           \<longleftrightarrow> (ord \<in> set (sideOrders ?asks) \<union> set (sideOrders (Bids b)) \<and> ID ord = k)"
  proof (rule sideRest_index)
    show "distinct (map ID (sideOrders (Asks b)))" using d by simp
    show "\<forall>r\<in>set (sideOrders (Asks b)). restingOK r" using bookOK_resting [OF ok] by simp
    show "ID ` set (sideOrders (Bids b)) \<inter> ID ` set (sideOrders (Asks b)) = {}" using d by auto
    show "\<forall>k ord. orderIndex b k = Some ord \<longleftrightarrow>
        (ord \<in> set (sideOrders (Asks b)) \<union> set (sideOrders (Bids b)) \<and> ID ord = k)"
      using ok by (auto simp: bookOK_def allOrders_sides)
  qed
  have pr: "LevelPrice ` set ?asks \<subseteq> LevelPrice ` set (Asks b)" by (rule sideRest_prices)
  have cross: "\<forall>bid\<in>set (Bids b). \<forall>ask\<in>set ?asks. LevelPrice bid < LevelPrice ask"
  proof (intro ballI)
    fix bid ask assume "bid \<in> set (Bids b)" "ask \<in> set ?asks"
    with pr obtain ask' where "ask' \<in> set (Asks b)" "LevelPrice ask' = LevelPrice ask" by auto
    moreover have "\<forall>bid\<in>set (Bids b). \<forall>ask\<in>set (Asks b). LevelPrice bid < LevelPrice ask"
      using ok by (simp add: bookOK_def)
    ultimately show "LevelPrice bid < LevelPrice ask"
      using \<open>bid \<in> set (Bids b)\<close> by metis
  qed
  show ?thesis
    using ok d' idx cross sideRest_sorted [of "better False" "Asks b" incoming q]
      sideRest_levelOK [of "Asks b" False incoming q]
    by (auto simp: bookOK_def allOrders_sides)
qed

lemma sideRest_bookOK_Sell:
  assumes ok: "bookOK b"
  shows "bookOK (b\<lparr>Bids := sideRest incoming q (Bids b),
                   orderIndex := indexAfter (orderIndex b) (sideFills incoming q (Bids b)),
                   nextTradeID := n\<rparr>)"
proof -
  let ?bids = "sideRest incoming q (Bids b)"
  have d: "distinct (map ID (sideOrders (Bids b)) @ map ID (sideOrders (Asks b)))"
    using ok by (simp add: bookOK_def allOrders_sides)
  have ids: "ID ` set (sideOrders ?bids) \<subseteq> ID ` set (sideOrders (Bids b))"
    by (rule sideRest_ids)
  have d': "distinct (map ID (sideOrders ?bids) @ map ID (sideOrders (Asks b)))"
    using d ids sideRest_distinct [of "Bids b" incoming q] by auto
  have idx: "\<forall>k ord. indexAfter (orderIndex b) (sideFills incoming q (Bids b)) k = Some ord
           \<longleftrightarrow> (ord \<in> set (sideOrders ?bids) \<union> set (sideOrders (Asks b)) \<and> ID ord = k)"
  proof (rule sideRest_index)
    show "distinct (map ID (sideOrders (Bids b)))" using d by simp
    show "\<forall>r\<in>set (sideOrders (Bids b)). restingOK r" using bookOK_resting [OF ok] by simp
    show "ID ` set (sideOrders (Asks b)) \<inter> ID ` set (sideOrders (Bids b)) = {}" using d by auto
    show "\<forall>k ord. orderIndex b k = Some ord \<longleftrightarrow>
        (ord \<in> set (sideOrders (Bids b)) \<union> set (sideOrders (Asks b)) \<and> ID ord = k)"
      using ok by (auto simp: bookOK_def allOrders_sides)
  qed
  have pr: "LevelPrice ` set ?bids \<subseteq> LevelPrice ` set (Bids b)" by (rule sideRest_prices)
  have cross: "\<forall>bid\<in>set ?bids. \<forall>ask\<in>set (Asks b). LevelPrice bid < LevelPrice ask"
  proof (intro ballI)
    fix bid ask assume "bid \<in> set ?bids" "ask \<in> set (Asks b)"
    with pr obtain bid' where "bid' \<in> set (Bids b)" "LevelPrice bid' = LevelPrice bid" by auto
    moreover have "\<forall>bid\<in>set (Bids b). \<forall>ask\<in>set (Asks b). LevelPrice bid < LevelPrice ask"
      using ok by (simp add: bookOK_def)
    ultimately show "LevelPrice bid < LevelPrice ask"
      using \<open>ask \<in> set (Asks b)\<close> by metis
  qed
  show ?thesis
    using ok d' idx cross sideRest_sorted [of "better True" "Bids b" incoming q]
      sideRest_levelOK [of "Bids b" True incoming q]
    by (auto simp: bookOK_def allOrders_sides)
qed

lemma sideRest_beyond:
  assumes s: "sorted_wrt (better d) (map LevelPrice ls)"
    and r: "\<forall>r\<in>set (sideOrders ls). restingOK r"
    and left: "0 < sideLeft incoming q ls"
    and l: "l \<in> set (sideRest incoming q ls)"
  shows "\<not> crosses incoming (hd (sideRest incoming q ls)) \<and>
         (l = hd (sideRest incoming q ls) \<or> better d (LevelPrice (hd (sideRest incoming q ls))) (LevelPrice l))"
proof -
  let ?rest = "sideRest incoming q ls"
  from l have ne: "?rest \<noteq> []" by auto
  with sideRest_stops [OF r left] have nc: "\<not> crosses incoming (hd ?rest)" by simp
  have "sorted_wrt (better d) (map LevelPrice ?rest)" using s by (rule sideRest_sorted)
  then have "sorted_wrt (\<lambda>x y. better d (LevelPrice x) (LevelPrice y)) ?rest"
    by (simp add: sorted_wrt_map)
  from sorted_wrt_hd [OF this l] nc show ?thesis by simp
qed

lemma specInsert_levelOK:
  assumes "\<forall>l\<in>set ls. levelOK bid l" "(Side ord = Buy) = bid" "restingOK ord"
  shows "\<forall>l\<in>set (specInsert ls ord d). levelOK bid l"
  using assms by (auto simp: specInsert_def levelOK_def)

lemma specInsert_mset:
  assumes "sorted_wrt (better d) (map LevelPrice ls)"
  shows "mset (sideOrders (specInsert ls ord d)) = mset (sideOrders ls) + {#ord#}"
  using insertIntoLevels_mset [of ls ord d] insertIntoLevels_spec [OF assms, of ord] by simp

lemma index_insert:
  assumes "\<forall>k x. idx k = Some x \<longleftrightarrow> x \<in> A \<and> ID x = k" "ID ord \<notin> ID ` A"
  shows "\<forall>k x. (idx(ID ord \<mapsto> ord)) k = Some x \<longleftrightarrow> x \<in> Set.insert ord A \<and> ID x = k"
proof (intro allI)
  fix k x
  show "((idx(ID ord \<mapsto> ord)) k = Some x) = (x \<in> Set.insert ord A \<and> ID x = k)"
  proof (cases "k = ID ord")
    case True
    have "x \<in> A \<Longrightarrow> ID x \<noteq> ID ord" using assms(2) by (metis imageI)
    with True show ?thesis by auto
  next
    case False
    with assms(1) show ?thesis by auto
  qed
qed

lemma insert_bookOK:
  assumes ok: "bookOK b" and r: "restingOK ord" and fresh: "ID ord \<notin> ID ` set (allOrders b)"
    and buy: "Side ord = Buy \<Longrightarrow> \<forall>ask\<in>set (Asks b). Price ord < LevelPrice ask"
    and sell: "Side ord \<noteq> Buy \<Longrightarrow> \<forall>bid\<in>set (Bids b). LevelPrice bid < Price ord"
  shows "bookOK (insert b ord)"
proof (cases "Side ord = Buy")
  case True
  let ?bids = "specInsert (Bids b) ord True"
  have sb: "sorted_wrt (better True) (map LevelPrice (Bids b))" using ok by (simp add: bookOK_def)
  have ins: "insert b ord = b\<lparr>orderIndex := (orderIndex b)(ID ord \<mapsto> ord), Bids := ?bids\<rparr>"
    using True by (simp add: insert_def Let_def insertIntoLevels_spec [OF sb])
  have m: "mset (sideOrders ?bids) = mset (sideOrders (Bids b)) + {#ord#}"
    using sb by (rule specInsert_mset)
  then have st: "set (sideOrders ?bids) = Set.insert ord (set (sideOrders (Bids b)))"
    by (metis set_mset_add_mset_insert set_mset_mset union_mset_add_mset_right add.right_neutral)
  have "mset (map ID (sideOrders ?bids @ sideOrders (Asks b)))
      = mset (map ID (ord # sideOrders (Bids b) @ sideOrders (Asks b)))"
    using m by simp
  moreover have "distinct (map ID (ord # sideOrders (Bids b) @ sideOrders (Asks b)))"
    using ok fresh by (simp add: bookOK_def allOrders_sides image_Un)
  ultimately have d: "distinct (map ID (sideOrders ?bids @ sideOrders (Asks b)))"
    by (metis mset_eq_imp_distinct_iff)
  have idx: "\<forall>k x. ((orderIndex b)(ID ord \<mapsto> ord)) k = Some x
        \<longleftrightarrow> x \<in> Set.insert ord (set (allOrders b)) \<and> ID x = k"
    using ok fresh by (intro index_insert) (simp_all add: bookOK_def)
  have cross: "\<forall>bid\<in>set ?bids. \<forall>ask\<in>set (Asks b). LevelPrice bid < LevelPrice ask"
  proof (intro ballI)
    fix bid ask assume a: "bid \<in> set ?bids" "ask \<in> set (Asks b)"
    then have "LevelPrice bid \<in> Set.insert (Price ord) (LevelPrice ` set (Bids b))"
      using specInsert_prices [of "Bids b" ord True] by blast
    moreover have "\<forall>bid\<in>set (Bids b). \<forall>ask\<in>set (Asks b). LevelPrice bid < LevelPrice ask"
      using ok by (simp add: bookOK_def)
    ultimately show "LevelPrice bid < LevelPrice ask"
      using buy [OF True] a(2) by auto
  qed
  have lv: "\<forall>l\<in>set ?bids. levelOK True l"
    using ok True r by (intro specInsert_levelOK) (simp_all add: bookOK_def)
  show ?thesis
    unfolding ins
    using ok d idx cross lv specInsert_sorted [OF sb, of ord] st
    by (simp add: bookOK_def allOrders_sides)
next
  case False
  let ?asks = "specInsert (Asks b) ord False"
  have sa: "sorted_wrt (better False) (map LevelPrice (Asks b))" using ok by (simp add: bookOK_def)
  have ins: "insert b ord = b\<lparr>orderIndex := (orderIndex b)(ID ord \<mapsto> ord), Asks := ?asks\<rparr>"
    using False by (simp add: insert_def Let_def insertIntoLevels_spec [OF sa])
  have m: "mset (sideOrders ?asks) = mset (sideOrders (Asks b)) + {#ord#}"
    using sa by (rule specInsert_mset)
  then have st: "set (sideOrders ?asks) = Set.insert ord (set (sideOrders (Asks b)))"
    by (metis set_mset_add_mset_insert set_mset_mset union_mset_add_mset_right add.right_neutral)
  have "mset (map ID (sideOrders (Bids b) @ sideOrders ?asks))
      = mset (map ID (ord # sideOrders (Bids b) @ sideOrders (Asks b)))"
    using m by simp
  moreover have "distinct (map ID (ord # sideOrders (Bids b) @ sideOrders (Asks b)))"
    using ok fresh by (simp add: bookOK_def allOrders_sides image_Un)
  ultimately have d: "distinct (map ID (sideOrders (Bids b) @ sideOrders ?asks))"
    by (metis mset_eq_imp_distinct_iff)
  have idx: "\<forall>k x. ((orderIndex b)(ID ord \<mapsto> ord)) k = Some x
        \<longleftrightarrow> x \<in> Set.insert ord (set (allOrders b)) \<and> ID x = k"
    using ok fresh by (intro index_insert) (simp_all add: bookOK_def)
  have cross: "\<forall>bid\<in>set (Bids b). \<forall>ask\<in>set ?asks. LevelPrice bid < LevelPrice ask"
  proof (intro ballI)
    fix bid ask assume a: "bid \<in> set (Bids b)" "ask \<in> set ?asks"
    then have "LevelPrice ask \<in> Set.insert (Price ord) (LevelPrice ` set (Asks b))"
      using specInsert_prices [of "Asks b" ord False] by blast
    moreover have "\<forall>bid\<in>set (Bids b). \<forall>ask\<in>set (Asks b). LevelPrice bid < LevelPrice ask"
      using ok by (simp add: bookOK_def)
    ultimately show "LevelPrice bid < LevelPrice ask"
      using sell [OF False] a(1) by auto
  qed
  have lv: "\<forall>l\<in>set ?asks. levelOK False l"
    using ok False r by (intro specInsert_levelOK) (simp_all add: bookOK_def)
  show ?thesis
    unfolding ins
    using ok d idx cross lv specInsert_sorted [OF sa, of ord] st
    by (simp add: bookOK_def allOrders_sides)
qed

section \<open>The book after an order\<close>

definition oppositeSide :: "Book \<Rightarrow> Order \<Rightarrow> PriceLevel list" where
  "oppositeSide b order = (if Side order = Buy then Asks b else Bids b)"

definition ownSide :: "Book \<Rightarrow> Order \<Rightarrow> PriceLevel list" where
  "ownSide b order = (if Side order = Buy then Bids b else Asks b)"

definition matchedBook :: "Book \<Rightarrow> Order \<Rightarrow> Book" where
  "matchedBook b order =
    (let fills = sideFills order (Qty order) (oppositeSide b order)
     in if Side order = Buy
        then b\<lparr>Asks := sideRest order (Qty order) (Asks b),
               orderIndex := indexAfter (orderIndex b) fills,
               nextTradeID := tradeIDAfter (nextTradeID b) fills\<rparr>
        else b\<lparr>Bids := sideRest order (Qty order) (Bids b),
               orderIndex := indexAfter (orderIndex b) fills,
               nextTradeID := tradeIDAfter (nextTradeID b) fills\<rparr>)"

lemma match_result:
  assumes "bookOK b" "Qty order < 2 ^ 63"
  shows "match b (order\<lparr>RemainingQty := Qty order\<rparr>) timestamp =
    (matchedBook b order,
     order\<lparr>RemainingQty := sideLeft order (Qty order) (oppositeSide b order)\<rparr>,
     fillTrades order timestamp (nextTradeID b) 0 (sideFills order (Qty order) (oppositeSide b order)))"
proof (cases "Side order = Buy")
  case True
  then show ?thesis
    using assms bookOK_resting [OF assms(1)]
    by (simp add: match_Buy matchedBook_def oppositeSide_def Let_def)
next
  case False
  then show ?thesis
    using assms bookOK_resting [OF assms(1)]
    by (simp add: match_Sell matchedBook_def oppositeSide_def Let_def)
qed

lemma matchedBook_ok: "bookOK b \<Longrightarrow> bookOK (matchedBook b order)"
  using sideRest_bookOK_Buy [where b = b and incoming = order and q = "Qty order"]
    sideRest_bookOK_Sell [where b = b and incoming = order and q = "Qty order"]
  by (simp add: matchedBook_def oppositeSide_def Let_def)

lemma matchedBook_ids: "ID ` set (allOrders (matchedBook b order)) \<subseteq> ID ` set (allOrders b)"
  using sideRest_ids [of order "Qty order" "Asks b"] sideRest_ids [of order "Qty order" "Bids b"]
  by (auto simp: matchedBook_def allOrders_sides Let_def image_Un)

lemma matchedBook_sides:
  "oppositeSide (matchedBook b order) order = sideRest order (Qty order) (oppositeSide b order)"
  "ownSide (matchedBook b order) order = ownSide b order"
  "nextTradeID (matchedBook b order)
     = tradeIDAfter (nextTradeID b) (sideFills order (Qty order) (oppositeSide b order))"
  by (simp_all add: matchedBook_def oppositeSide_def ownSide_def Let_def)

lemma not_crosses_Buy:
  "\<not> crosses order l \<Longrightarrow> Side order = Buy \<Longrightarrow> Price order < LevelPrice l"
  by (auto simp: crosses_def Buy_def Sell_def)

lemma not_crosses_Sell:
  "\<not> crosses order l \<Longrightarrow> Side order \<noteq> Buy \<Longrightarrow> LevelPrice l < Price order"
  by (auto simp: crosses_def)

lemma rested_beyond_Buy:
  assumes ok: "bookOK b" and "Side order = Buy"
    and left: "0 < sideLeft order (Qty order) (Asks b)"
  shows "\<forall>ask\<in>set (sideRest order (Qty order) (Asks b)). Price order < LevelPrice ask"
proof
  fix ask assume a: "ask \<in> set (sideRest order (Qty order) (Asks b))"
  have s: "sorted_wrt (better False) (map LevelPrice (Asks b))" using ok by (simp add: bookOK_def)
  from sideRest_beyond [OF s bookOK_resting(1) [OF ok] left a]
  have "\<not> crosses order (hd (sideRest order (Qty order) (Asks b)))"
    and "ask = hd (sideRest order (Qty order) (Asks b))
         \<or> LevelPrice (hd (sideRest order (Qty order) (Asks b))) < LevelPrice ask"
    by (simp_all add: better_def)
  with not_crosses_Buy [OF _ assms(2)] show "Price order < LevelPrice ask" by force
qed

lemma rested_beyond_Sell:
  assumes ok: "bookOK b" and "Side order \<noteq> Buy"
    and left: "0 < sideLeft order (Qty order) (Bids b)"
  shows "\<forall>bid\<in>set (sideRest order (Qty order) (Bids b)). LevelPrice bid < Price order"
proof
  fix bid assume a: "bid \<in> set (sideRest order (Qty order) (Bids b))"
  have s: "sorted_wrt (better True) (map LevelPrice (Bids b))" using ok by (simp add: bookOK_def)
  from sideRest_beyond [OF s bookOK_resting(2) [OF ok] left a]
  have "\<not> crosses order (hd (sideRest order (Qty order) (Bids b)))"
    and "bid = hd (sideRest order (Qty order) (Bids b))
         \<or> LevelPrice bid < LevelPrice (hd (sideRest order (Qty order) (Bids b)))"
    by (simp_all add: better_def)
  with not_crosses_Sell [OF _ assms(2)] show "LevelPrice bid < Price order" by force
qed

lemma processLimit_result:
  assumes "bookOK b" "Qty order < 2 ^ 63"
  shows "processLimit b order timestamp =
    (let left = sideLeft order (Qty order) (oppositeSide b order);
         order1 = order\<lparr>RemainingQty := left\<rparr>;
         b2 = (if 0 < left then insert (matchedBook b order) order1 else matchedBook b order)
     in \<lparr>rBook = b2, rOrder = order1,
         rTrades = fillTrades order timestamp (nextTradeID b) 0
                     (sideFills order (Qty order) (oppositeSide b order)),
         rBBO = bookBBO b2\<rparr>)"
  by (simp add: processLimit_def match_result [OF assms] Let_def)

lemma processMarket_result:
  assumes "bookOK b" "Qty order < 2 ^ 63"
  shows "processMarket b order timestamp =
     \<lparr>rBook = matchedBook b order,
      rOrder = order\<lparr>RemainingQty := sideLeft order (Qty order) (oppositeSide b order)\<rparr>,
      rTrades = fillTrades order timestamp (nextTradeID b) 0
                     (sideFills order (Qty order) (oppositeSide b order)),
      rBBO = bookBBO (matchedBook b order)\<rparr>"
  by (simp add: processMarket_def match_result [OF assms] Let_def)

lemma processLimit_bookOK:
  assumes ok: "bookOK b" and q: "Qty order < 2 ^ 63" and fresh: "ID order \<notin> ID ` set (allOrders b)"
  shows "bookOK (rBook (processLimit b order timestamp))"
proof -
  let ?left = "sideLeft order (Qty order) (oppositeSide b order)"
  let ?order1 = "order\<lparr>RemainingQty := ?left\<rparr>"
  let ?b1 = "matchedBook b order"
  have ok1: "bookOK ?b1" using ok by (rule matchedBook_ok)
  show ?thesis
  proof (cases "0 < ?left")
    case False
    with ok1 show ?thesis by (simp add: processLimit_result [OF ok q] Let_def)
  next
    case True
    have "?left \<le> Qty order"
      using bookOK_resting [OF ok] by (auto simp: oppositeSide_def intro: sideLeft_le)
    with True q have r: "restingOK ?order1" by (simp add: restingOK_def)
    have f: "ID ?order1 \<notin> ID ` set (allOrders ?b1)"
      using fresh matchedBook_ids [of b order] by auto
    have "bookOK (insert ?b1 ?order1)"
    proof (rule insert_bookOK [OF ok1 r f])
      assume buy: "Side ?order1 = Buy"
      then have "Asks ?b1 = sideRest order (Qty order) (Asks b)"
        by (simp add: matchedBook_def Let_def)
      with rested_beyond_Buy [OF ok, of order] buy True
      show "\<forall>ask\<in>set (Asks ?b1). Price ?order1 < LevelPrice ask"
        by (simp add: oppositeSide_def)
    next
      assume sell: "Side ?order1 \<noteq> Buy"
      then have "Bids ?b1 = sideRest order (Qty order) (Bids b)"
        by (simp add: matchedBook_def Let_def)
      with rested_beyond_Sell [OF ok, of order] sell True
      show "\<forall>bid\<in>set (Bids ?b1). LevelPrice bid < Price ?order1"
        by (simp add: oppositeSide_def)
    qed
    with True show ?thesis by (simp add: processLimit_result [OF ok q] Let_def)
  qed
qed

lemma processMarket_bookOK:
  assumes ok: "bookOK b" and q: "Qty order < 2 ^ 63"
  shows "bookOK (rBook (processMarket b order timestamp))"
  using matchedBook_ok [OF ok] by (simp add: processMarket_result [OF ok q])

section \<open>Cancelling a resting order\<close>

definition stripOrder :: "nat \<Rightarrow> PriceLevel list \<Rightarrow> PriceLevel list" where
  "stripOrder k levels =
    filter (\<lambda>l. Orders l \<noteq> [])
      (map (\<lambda>l. l\<lparr>Orders := filter (\<lambda>ord. ID ord \<noteq> k) (Orders l)\<rparr>) levels)"

lemma stripOrder_simps [simp]:
  "stripOrder k [] = []"
  "stripOrder k (l # ls) =
     (if filter (\<lambda>ord. ID ord \<noteq> k) (Orders l) = [] then stripOrder k ls
      else l\<lparr>Orders := filter (\<lambda>ord. ID ord \<noteq> k) (Orders l)\<rparr> # stripOrder k ls)"
  by (simp_all add: stripOrder_def)

lemma removeFromOrders_filter:
  "distinct (map ID os) \<Longrightarrow>
   removeFromOrders k os = (if k \<in> ID ` set os then Some (filter (\<lambda>ord. ID ord \<noteq> k) os) else None)"
proof (induction os)
  case Nil
  then show ?case by simp
next
  case (Cons x xs)
  show ?case
  proof (cases "ID x = k")
    case True
    with Cons.prems have "k \<notin> ID ` set xs" by auto
    then have "filter (\<lambda>ord. ID ord \<noteq> k) xs = xs"
      by (intro filter_True) auto
    with True show ?thesis by simp
  next
    case False
    with Cons show ?thesis by auto
  qed
qed

lemma stripOrder_absent:
  "k \<notin> ID ` set (sideOrders ls) \<Longrightarrow> \<forall>l\<in>set ls. Orders l \<noteq> [] \<Longrightarrow> stripOrder k ls = ls"
proof (induction ls)
  case Nil
  then show ?case by simp
next
  case (Cons l ls)
  have "filter (\<lambda>ord. ID ord \<noteq> k) (Orders l) = Orders l"
    using Cons.prems(1) by (intro filter_True ballI) (metis UnI1 imageI set_append sideOrders_simps(2))
  with Cons show ?case by (simp add: image_Un)
qed

lemma sideOrders_member: "t \<in> set (sideOrders ls) \<Longrightarrow> \<exists>l\<in>set ls. t \<in> set (Orders l)"
  by (auto simp: sideOrders_def)

lemma removeFromLevels_strip:
  assumes "sorted_wrt (better d) (map LevelPrice ls)" "distinct (map ID (sideOrders ls))"
    "\<forall>l\<in>set ls. levelOK bid l" "t \<in> set (sideOrders ls)" "Price t' = Price t" "ID t' = ID t"
  shows "removeFromLevels t' ls = stripOrder (ID t) ls"
  using assms(1-4)
proof (induction ls)
  case Nil
  then show ?case by simp
next
  case (Cons l ls)
  have lv: "levelOK bid l" using Cons.prems(3) by simp
  have dl: "distinct (map ID (Orders l))" and dls: "distinct (map ID (sideOrders ls))"
    and disj: "ID ` set (Orders l) \<inter> ID ` set (sideOrders ls) = {}"
    using Cons.prems(2) by auto
  show ?case
  proof (cases "t \<in> set (Orders l)")
    case True
    then have p: "LevelPrice l = Price t" using lv by (simp add: levelOK_def)
    have "ID t \<notin> ID ` set (sideOrders ls)" using True disj by auto
    moreover have "\<forall>l\<in>set ls. Orders l \<noteq> []" using Cons.prems(3) by (simp add: levelOK_def)
    ultimately have rest: "stripOrder (ID t) ls = ls" by (rule stripOrder_absent)
    have "removeFromOrders (ID t) (Orders l) = Some (filter (\<lambda>ord. ID ord \<noteq> ID t) (Orders l))"
      using True by (simp add: removeFromOrders_filter [OF dl])
    with p rest assms(5,6) show ?thesis by simp
  next
    case False
    with Cons.prems(4) have tl: "t \<in> set (sideOrders ls)" by simp
    then obtain l' where l': "l' \<in> set ls" "t \<in> set (Orders l')"
      using sideOrders_member by blast
    then have "LevelPrice l' = Price t" using Cons.prems(3) by (simp add: levelOK_def)
    moreover have "better d (LevelPrice l) (LevelPrice l')"
      using Cons.prems(1) l'(1) by auto
    ultimately have p: "LevelPrice l \<noteq> Price t" by auto
    have "ID t \<notin> ID ` set (Orders l)" using tl disj by auto
    then have keep: "filter (\<lambda>ord. ID ord \<noteq> ID t) (Orders l) = Orders l"
      by (intro filter_True ballI) (metis imageI)
    have ne: "Orders l \<noteq> []" using lv by (simp add: levelOK_def)
    have "removeFromLevels t' ls = stripOrder (ID t) ls"
      using Cons.prems(1,3) dls tl by (intro Cons.IH) simp_all
    with p keep ne assms(5) show ?thesis by simp
  qed
qed

lemma stripOrder_orders:
  "sideOrders (stripOrder k ls) = filter (\<lambda>ord. ID ord \<noteq> k) (sideOrders ls)"
  by (induction ls) auto

lemma stripOrder_sorted:
  "sorted_wrt P (map LevelPrice ls) \<Longrightarrow> sorted_wrt P (map LevelPrice (stripOrder k ls))"
  by (induction ls) (auto simp: stripOrder_def)

lemma stripOrder_prices: "LevelPrice ` set (stripOrder k ls) \<subseteq> LevelPrice ` set ls"
  by (auto simp: stripOrder_def)

lemma stripOrder_levelOK:
  "\<forall>l\<in>set ls. levelOK bid l \<Longrightarrow> \<forall>l\<in>set (stripOrder k ls). levelOK bid l"
  by (auto simp: stripOrder_def levelOK_def)

lemma bookOK_target:
  assumes ok: "bookOK b" and t: "orderIndex b k = Some target"
  shows "target \<in> set (allOrders b)" "ID target = k" "restingOK target"
    "Side target = Buy \<Longrightarrow> target \<in> set (sideOrders (Bids b))"
    "Side target \<noteq> Buy \<Longrightarrow> target \<in> set (sideOrders (Asks b))"
proof -
  from ok t show m: "target \<in> set (allOrders b)" and "ID target = k"
    by (simp_all add: bookOK_def)
  from m bookOK_resting [OF ok] show "restingOK target"
    by (auto simp: allOrders_sides)
  have b: "\<And>r. r \<in> set (sideOrders (Bids b)) \<Longrightarrow> Side r = Buy"
    using ok levelOK_side [of "Bids b" True] by (simp add: bookOK_def)
  have a: "\<And>r. r \<in> set (sideOrders (Asks b)) \<Longrightarrow> Side r \<noteq> Buy"
    using ok levelOK_side [of "Asks b" False] by (simp add: bookOK_def)
  from m a show "Side target = Buy \<Longrightarrow> target \<in> set (sideOrders (Bids b))"
    by (auto simp: allOrders_sides)
  from m b show "Side target \<noteq> Buy \<Longrightarrow> target \<in> set (sideOrders (Asks b))"
    by (auto simp: allOrders_sides)
qed

lemma processCancel_result:
  assumes ok: "bookOK b" and t: "orderIndex b (CancelID cancel) = Some target"
  shows "Bids (rBook (processCancel b cancel)) = stripOrder (CancelID cancel) (Bids b)"
    and "Asks (rBook (processCancel b cancel)) = stripOrder (CancelID cancel) (Asks b)"
    and "orderIndex (rBook (processCancel b cancel)) = (orderIndex b)(CancelID cancel := None)"
    and "nextTradeID (rBook (processCancel b cancel)) = nextTradeID b"
    and "rTrades (processCancel b cancel) = []"
    and "rBBO (processCancel b cancel) = bookBBO (rBook (processCancel b cancel))"
proof -
  note tg = bookOK_target [OF ok t]
  let ?t' = "target\<lparr>RemainingQty := 0\<rparr>"
  have pos: "\<not> RemainingQty target \<le> 0" using tg(3) by (simp add: restingOK_def)
  have d: "distinct (map ID (sideOrders (Bids b)))" "distinct (map ID (sideOrders (Asks b)))"
    and disj: "ID ` set (sideOrders (Bids b)) \<inter> ID ` set (sideOrders (Asks b)) = {}"
    using ok by (auto simp: bookOK_def allOrders_sides)
  have ne: "\<forall>l\<in>set (Bids b). Orders l \<noteq> []" "\<forall>l\<in>set (Asks b). Orders l \<noteq> []"
    using ok by (auto simp: bookOK_def levelOK_def)
  have res: "processCancel b cancel =
      \<lparr>rBook = (removeOrder b ?t')\<lparr>orderIndex := (orderIndex (removeOrder b ?t'))(ID ?t' := None)\<rparr>,
       rOrder = cancel, rTrades = [],
       rBBO = bookBBO ((removeOrder b ?t')\<lparr>orderIndex := (orderIndex (removeOrder b ?t'))(ID ?t' := None)\<rparr>)\<rparr>"
    using t pos by (simp add: processCancel_def Let_def)
  show "rTrades (processCancel b cancel) = []" by (simp add: res)
  show "rBBO (processCancel b cancel) = bookBBO (rBook (processCancel b cancel))" by (simp add: res)
  show "orderIndex (rBook (processCancel b cancel)) = (orderIndex b)(CancelID cancel := None)"
    using tg(2) by (simp add: res removeOrder_def)
  show "nextTradeID (rBook (processCancel b cancel)) = nextTradeID b"
    by (simp add: res removeOrder_def)
  show "Bids (rBook (processCancel b cancel)) = stripOrder (CancelID cancel) (Bids b)"
  proof (cases "Side target = Buy")
    case True
    have "removeFromLevels ?t' (Bids b) = stripOrder (ID target) (Bids b)"
      using ok d tg(4) [OF True]
      by (intro removeFromLevels_strip [where d = True and bid = True]) (simp_all add: bookOK_def)
    with True tg(2) show ?thesis by (simp add: res removeOrder_def)
  next
    case False
    have "ID target \<notin> ID ` set (sideOrders (Bids b))" using tg(5) [OF False] disj by auto
    then have "stripOrder (ID target) (Bids b) = Bids b" using ne(1) by (rule stripOrder_absent)
    with False tg(2) show ?thesis by (simp add: res removeOrder_def)
  qed
  show "Asks (rBook (processCancel b cancel)) = stripOrder (CancelID cancel) (Asks b)"
  proof (cases "Side target = Buy")
    case False
    have "removeFromLevels ?t' (Asks b) = stripOrder (ID target) (Asks b)"
      using ok d tg(5) [OF False]
      by (intro removeFromLevels_strip [where d = False and bid = False]) (simp_all add: bookOK_def)
    with False tg(2) show ?thesis by (simp add: res removeOrder_def)
  next
    case True
    have "ID target \<notin> ID ` set (sideOrders (Asks b))" using tg(4) [OF True] disj by auto
    then have "stripOrder (ID target) (Asks b) = Asks b" using ne(2) by (rule stripOrder_absent)
    with True tg(2) show ?thesis by (simp add: res removeOrder_def)
  qed
qed

lemma processCancel_bookOK:
  assumes ok: "bookOK b"
  shows "bookOK (rBook (processCancel b cancel))"
proof (cases "orderIndex b (CancelID cancel)")
  case None
  with ok show ?thesis by (simp add: processCancel_def)
next
  case (Some target)
  note r = processCancel_result [OF ok Some]
  let ?b' = "rBook (processCancel b cancel)"
  let ?k = "CancelID cancel"
  have all: "allOrders ?b' = filter (\<lambda>ord. ID ord \<noteq> ?k) (allOrders b)"
    by (simp add: allOrders_sides r(1,2) stripOrder_orders)
  have c0: "\<forall>bid\<in>set (Bids b). \<forall>ask\<in>set (Asks b). LevelPrice bid < LevelPrice ask"
    using ok by (simp add: bookOK_def)
  have cross: "\<forall>bid\<in>set (Bids ?b'). \<forall>ask\<in>set (Asks ?b'). LevelPrice bid < LevelPrice ask"
  proof (intro ballI)
    fix bid ask assume "bid \<in> set (Bids ?b')" "ask \<in> set (Asks ?b')"
    then have "LevelPrice bid \<in> LevelPrice ` set (Bids b)" "LevelPrice ask \<in> LevelPrice ` set (Asks b)"
      using stripOrder_prices [of ?k "Bids b"] stripOrder_prices [of ?k "Asks b"]
      by (auto simp: r(1,2))
    then obtain bid' ask' where "bid' \<in> set (Bids b)" "LevelPrice bid' = LevelPrice bid"
        "ask' \<in> set (Asks b)" "LevelPrice ask' = LevelPrice ask"
      by auto
    with c0 show "LevelPrice bid < LevelPrice ask" by metis
  qed
  have d: "distinct (map ID (allOrders ?b'))"
    unfolding all using ok by (simp add: bookOK_def distinct_map_filter)
  have i0: "\<forall>k ord. orderIndex b k = Some ord \<longleftrightarrow> ord \<in> set (allOrders b) \<and> ID ord = k"
    using ok by (simp add: bookOK_def)
  have idx: "\<forall>k ord. orderIndex ?b' k = Some ord \<longleftrightarrow> ord \<in> set (allOrders ?b') \<and> ID ord = k"
    unfolding all r(3) using i0 by auto
  have s1: "sorted_wrt (better True) (map LevelPrice (Bids ?b'))"
    unfolding r(1) using ok by (intro stripOrder_sorted) (simp add: bookOK_def)
  have s2: "sorted_wrt (better False) (map LevelPrice (Asks ?b'))"
    unfolding r(2) using ok by (intro stripOrder_sorted) (simp add: bookOK_def)
  have l1: "\<forall>l\<in>set (Bids ?b'). levelOK True l"
    unfolding r(1) using ok by (intro stripOrder_levelOK) (simp add: bookOK_def)
  have l2: "\<forall>l\<in>set (Asks ?b'). levelOK False l"
    unfolding r(2) using ok by (intro stripOrder_levelOK) (simp add: bookOK_def)
  show ?thesis
    unfolding bookOK_def using s1 s2 cross l1 l2 d idx by blast
qed

section \<open>The invariant check holds on well-formed books\<close>

lemma strictlyDescending_sorted:
  "strictlyDescending ls = sorted_wrt (better True) (map LevelPrice ls)"
proof (induction ls rule: strictlyDescending.induct)
  case (1 l1 l2 ls)
  have h: "sorted_wrt (better True) (map LevelPrice (l1 # l2 # ls))
      = (better True (LevelPrice l1) (LevelPrice l2) \<and> sorted_wrt (better True) (map LevelPrice (l2 # ls)))"
    by (auto intro: better_trans)
  have b: "better True (LevelPrice l1) (LevelPrice l2) = (LevelPrice l2 < LevelPrice l1)"
    by (simp add: better_def)
  show ?case
    by (simp only: strictlyDescending.simps 1 h b)
qed simp_all

lemma strictlyAscending_sorted:
  "strictlyAscending ls = sorted_wrt (better False) (map LevelPrice ls)"
proof (induction ls rule: strictlyAscending.induct)
  case (1 l1 l2 ls)
  have h: "sorted_wrt (better False) (map LevelPrice (l1 # l2 # ls))
      = (better False (LevelPrice l1) (LevelPrice l2) \<and> sorted_wrt (better False) (map LevelPrice (l2 # ls)))"
    by (auto intro: better_trans)
  have b: "better False (LevelPrice l1) (LevelPrice l2) = (LevelPrice l1 < LevelPrice l2)"
    by (simp add: better_def)
  show ?case
    by (simp only: strictlyAscending.simps 1 h b)
qed simp_all

lemma bookOK_keys: "bookOK b \<Longrightarrow> dom (orderIndex b) = ID ` set (allOrders b)"
  by (auto simp: bookOK_def dom_def)

lemma bookOK_AssertInvariants:
  assumes ok: "bookOK b"
  shows "AssertInvariants b"
proof -
  have "card (dom (orderIndex b)) = card (set (map ID (allOrders b)))"
    using bookOK_keys [OF ok] by simp
  also have "\<dots> = length (allOrders b)"
    using ok distinct_card [of "map ID (allOrders b)"] by (simp add: bookOK_def)
  finally have c: "length (allOrders b) = card (dom (orderIndex b))" by simp
  have r: "list_all (\<lambda>ord. \<not> RemainingQty ord < 0 \<and> RemainingQty ord \<noteq> 0) (allOrders b)"
    using bookOK_resting [OF ok] by (auto simp: list_all_iff allOrders_sides restingOK_def)
  have n: "notCrossed b"
    using ok by (auto simp: notCrossed_def bookOK_def split: list.splits)
  have e: "list_all (\<lambda>level. Orders level \<noteq> []) (Bids b)" "list_all (\<lambda>level. Orders level \<noteq> []) (Asks b)"
    using ok by (auto simp: list_all_iff bookOK_def levelOK_def)
  show ?thesis
    using ok c r n e
    by (simp add: AssertInvariants_def strictlyDescending_sorted strictlyAscending_sorted bookOK_def)
qed

lemma New_ok: "bookOK New"
  by (simp add: bookOK_def New_def allOrders_def)

lemma insert_allOrders_mset: "mset (allOrders (insert b ord)) = add_mset ord (mset (allOrders b))"
  by (simp add: insert_def Let_def allOrders_sides insertIntoLevels_mset)

lemma ProcessOrder_bookOK:
  assumes ok: "bookOK b" and q: "int64 (Qty order)"
    and fresh: "Type order = LimitOrder \<longrightarrow> ID order \<notin> ID ` set (allOrders b)"
    and res: "ProcessOrder b order timestamp = Inr r"
  shows "bookOK (rBook r)"
proof -
  have q': "Qty order < 2 ^ 63" using q by (simp add: int64_def)
  from res consider
      "Type order = LimitOrder" "r = processLimit b order timestamp"
    | "Type order = MarketOrder" "r = processMarket b order timestamp"
    | "Type order = CancelOrder" "r = processCancel b order"
    by (auto simp: ProcessOrder_def split: if_splits)
  then show ?thesis
  proof cases
    case 1
    with fresh processLimit_bookOK [OF ok q'] show ?thesis by simp
  next
    case 2
    with processMarket_bookOK [OF ok q'] show ?thesis by simp
  next
    case 3
    with processCancel_bookOK [OF ok] show ?thesis by simp
  qed
qed

lemma ProcessOrder_ids:
  assumes ok: "bookOK b" and q: "int64 (Qty order)"
    and res: "ProcessOrder b order timestamp = Inr r"
  shows "ID ` set (allOrders (rBook r)) \<subseteq> Set.insert (ID order) (ID ` set (allOrders b))"
proof -
  have q': "Qty order < 2 ^ 63" using q by (simp add: int64_def)
  from res consider
      "r = processLimit b order timestamp"
    | "r = processMarket b order timestamp"
    | "r = processCancel b order"
    by (auto simp: ProcessOrder_def split: if_splits)
  then show ?thesis
  proof cases
    case 1
    let ?o1 = "order\<lparr>RemainingQty := sideLeft order (Qty order) (oppositeSide b order)\<rparr>"
    have "set (allOrders (insert (matchedBook b order) ?o1))
        = Set.insert ?o1 (set (allOrders (matchedBook b order)))"
      using insert_allOrders_mset [of "matchedBook b order" ?o1]
      by (metis set_mset_add_mset_insert set_mset_mset)
    with 1 matchedBook_ids [of b order] show ?thesis
      by (auto simp: processLimit_result [OF ok q'] Let_def)
  next
    case 2
    with matchedBook_ids [of b order] show ?thesis
      by (auto simp: processMarket_result [OF ok q'])
  next
    case 3
    show ?thesis
    proof (cases "orderIndex b (CancelID order)")
      case None
      with 3 show ?thesis by (auto simp: processCancel_def)
    next
      case (Some target)
      have "allOrders (rBook r) = filter (\<lambda>ord. ID ord \<noteq> CancelID order) (allOrders b)"
        using 3 processCancel_result(1,2) [OF ok Some]
        by (simp add: allOrders_sides stripOrder_orders)
      then show ?thesis by auto
    qed
  qed
qed

text \<open>
  The runner hands the orders of a run to the book one after the other
  (\<open>Runner.handleOrder\<close>); a panic of \<open>ProcessOrder\<close> ends the run.
\<close>

fun processAll :: "Book \<Rightarrow> (Order \<times> int) list \<Rightarrow> error + Book" where
  "processAll b [] = Inr b"
| "processAll b ((order, timestamp) # rest) =
    (case ProcessOrder b order timestamp of
       Inl e \<Rightarrow> Inl e
     | Inr r \<Rightarrow> processAll (rBook r) rest)"

definition validOrder :: "Order \<Rightarrow> bool" where
  "validOrder order =
    (int64 (Qty order) \<and>
     (Type order = LimitOrder \<or> Type order = MarketOrder \<or> Type order = CancelOrder))"

lemma processAll_bookOK:
  assumes "bookOK b" "list_all (\<lambda>x. validOrder (fst x)) orders"
    "distinct (map (\<lambda>x. ID (fst x)) orders)"
    "ID ` set (allOrders b) \<inter> (\<lambda>x. ID (fst x)) ` set orders = {}"
  shows "\<exists>b'. processAll b orders = Inr b' \<and> bookOK b'"
  using assms
proof (induction orders arbitrary: b)
  case Nil
  then show ?case by simp
next
  case (Cons x rest)
  obtain order timestamp where x: "x = (order, timestamp)" by (cases x)
  let ?R = "(\<lambda>x. ID (fst x)) ` set rest"
  have v: "validOrder order" using Cons.prems(2) x by simp
  then obtain r where r: "ProcessOrder b order timestamp = Inr r"
    by (auto simp: validOrder_def ProcessOrder_def LimitOrder_def MarketOrder_def CancelOrder_def)
  have fresh: "ID order \<notin> ID ` set (allOrders b)" using Cons.prems(4) x by auto
  have q: "int64 (Qty order)" using v by (simp add: validOrder_def)
  have ok': "bookOK (rBook r)"
    by (rule ProcessOrder_bookOK [OF Cons.prems(1) q _ r]) (simp add: fresh)
  have ids: "ID ` set (allOrders (rBook r)) \<subseteq> Set.insert (ID order) (ID ` set (allOrders b))"
    by (rule ProcessOrder_ids [OF Cons.prems(1) q r])
  have n1: "ID order \<notin> ?R" using Cons.prems(3) x by simp
  have n2: "ID ` set (allOrders b) \<inter> ?R = {}" using Cons.prems(4) by auto
  have "\<exists>b'. processAll (rBook r) rest = Inr b' \<and> bookOK b'"
  proof (rule Cons.IH [OF ok'])
    show "list_all (\<lambda>x. validOrder (fst x)) rest" using Cons.prems(2) by simp
    show "distinct (map (\<lambda>x. ID (fst x)) rest)" using Cons.prems(3) by simp
    have "ID ` set (allOrders (rBook r)) \<inter> ?R
        \<subseteq> Set.insert (ID order) (ID ` set (allOrders b)) \<inter> ?R"
      using ids by (rule Int_mono) simp
    also have "\<dots> = {}" using n1 n2 by simp
    finally show "ID ` set (allOrders (rBook r)) \<inter> ?R = {}" by simp
  qed
  with r x show ?case by simp
qed

section \<open>The invariants hold after every order\<close>

text \<open>The run of the book test \<open>TestCancelRemovesRemainingOnly\<close>: a sell of 10, a market buy of 3, a cancel of the rest.\<close>

definition sampleRun :: "(Order \<times> int) list" where
  "sampleRun = [(makeLimit 1 Sell 100 10, 0), (makeMarket 2 Buy 3, 1), (makeCancel 3 1, 2)]"

text \<open>
  Claim C2. After every order the book has processed (Limit, Market or Cancel), starting
  from the empty book, the check \<open>AssertInvariants\<close> passes: bid prices strictly
  descending, ask prices strictly ascending, best bid below best ask when both sides are
  non-empty, no empty level, every resting order with a positive remaining quantity, as
  many keys in the order index as orders in the levels; and the keys of the index are the
  ids of the orders in the levels. The orders of the run have ids that are unique across
  the run (the specification's data model), quantities within \<open>int64\<close> and one of the
  three order types, so that \<open>ProcessOrder\<close> does not panic.
\<close>

theorem invariants_after_every_order:
  assumes "list_all (\<lambda>x. validOrder (fst x)) orders"
    and "distinct (map (\<lambda>x. ID (fst x)) orders)"
  shows "\<forall>n\<le>length orders. \<exists>b. processAll New (take n orders) = Inr b \<and> AssertInvariants b
           \<and> dom (orderIndex b) = ID ` set (allOrders b)"
proof (intro allI impI)
  fix n assume "n \<le> length orders"
  have "\<exists>b. processAll New (take n orders) = Inr b \<and> bookOK b"
  proof (rule processAll_bookOK [OF New_ok])
    show "list_all (\<lambda>x. validOrder (fst x)) (take n orders)"
      using assms(1) by (auto simp: list_all_iff dest: in_set_takeD)
    show "distinct (map (\<lambda>x. ID (fst x)) (take n orders))"
      using assms(2) by (simp add: take_map [symmetric])
    show "ID ` set (allOrders New) \<inter> (\<lambda>x. ID (fst x)) ` set (take n orders) = {}"
      by (simp add: New_def allOrders_def)
  qed
  then show "\<exists>b. processAll New (take n orders) = Inr b \<and> AssertInvariants b
           \<and> dom (orderIndex b) = ID ` set (allOrders b)"
    using bookOK_AssertInvariants bookOK_keys by blast
qed

theorem invariants_after_every_order_witness:
  "list_all (\<lambda>x. validOrder (fst x)) sampleRun \<and> distinct (map (\<lambda>x. ID (fst x)) sampleRun) \<and>
   (\<exists>b. processAll New sampleRun = Inr b \<and> AssertInvariants b
        \<and> dom (orderIndex b) = ID ` set (allOrders b))"
proof -
  have v: "list_all (\<lambda>x. validOrder (fst x)) sampleRun"
    by (simp add: sampleRun_def validOrder_def int64_def makeLimit_def makeMarket_def makeCancel_def)
  have d: "distinct (map (\<lambda>x. ID (fst x)) sampleRun)"
    by (simp add: sampleRun_def makeLimit_def makeMarket_def makeCancel_def)
  have "length sampleRun \<le> length sampleRun" by simp
  with invariants_after_every_order [OF v d] have
    "\<exists>b. processAll New (take (length sampleRun) sampleRun) = Inr b \<and> AssertInvariants b
        \<and> dom (orderIndex b) = ID ` set (allOrders b)"
    by blast
  with v d show ?thesis by simp
qed

section \<open>Conservation of quantity\<close>

text \<open>
  The book of the test \<open>TestFIFOWithinPriceLevel\<close>: three sells of 10 at price 1000, ids
  1, 2 and 3 in that order, and a bid of 4 at 990 (id 4).
\<close>

definition restingLimit :: "nat \<Rightarrow> Side \<Rightarrow> int \<Rightarrow> int \<Rightarrow> Order" where
  "restingLimit oid side price qty = (makeLimit oid side price qty)\<lparr>RemainingQty := qty\<rparr>"

definition fifoBook :: Book where
  "fifoBook =
    \<lparr>Bids = [\<lparr>LevelPrice = 990, Orders = [restingLimit 4 Buy 990 4]\<rparr>],
     Asks = [\<lparr>LevelPrice = 1000,
              Orders = [restingLimit 1 Sell 1000 10, restingLimit 2 Sell 1000 10,
                        restingLimit 3 Sell 1000 10]\<rparr>],
     orderIndex = [1 \<mapsto> restingLimit 1 Sell 1000 10, 2 \<mapsto> restingLimit 2 Sell 1000 10,
                   3 \<mapsto> restingLimit 3 Sell 1000 10, 4 \<mapsto> restingLimit 4 Buy 990 4],
     nextTradeID = 0\<rparr>"

lemma fifoBook_ok: "bookOK fifoBook"
  unfolding bookOK_def
  by (auto simp: fifoBook_def allOrders_def levelOK_def restingOK_def restingLimit_def makeLimit_def
      better_def Buy_def Sell_def split: if_splits)

lemma qtyOf_mset: "mset xs = mset ys \<Longrightarrow> qtyOf k xs = qtyOf k ys"
proof -
  assume "mset xs = mset ys"
  then have "mset (map RemainingQty (filter (\<lambda>ord. ID ord = k) xs))
           = mset (map RemainingQty (filter (\<lambda>ord. ID ord = k) ys))"
    by (metis mset_filter mset_map)
  then have "sum_mset (mset (map RemainingQty (filter (\<lambda>ord. ID ord = k) xs)))
           = sum_mset (mset (map RemainingQty (filter (\<lambda>ord. ID ord = k) ys)))"
    by simp
  then show ?thesis by (simp only: sum_mset_sum_list qtyOf_def)
qed

lemma qtyOf_distinct: "distinct (map ID xs) \<Longrightarrow> p \<in> set xs \<Longrightarrow> qtyOf (ID p) xs = RemainingQty p"
proof (induction xs)
  case Nil
  then show ?case by simp
next
  case (Cons x xs)
  have absent: "ID x \<notin> ID ` set xs \<Longrightarrow> qtyOf (ID x) xs = 0"
    by (induction xs) auto
  show ?case
  proof (cases "p = x")
    case True
    with Cons.prems absent show ?thesis by simp
  next
    case False
    with Cons.prems have "p \<in> set xs" "ID x \<noteq> ID p" by auto
    with Cons show ?thesis by simp
  qed
qed

lemma matchedBook_qtyOf:
  assumes ok: "bookOK b"
  shows "qtyOf k (allOrders (matchedBook b order))
       = qtyOf k (allOrders b)
         - sum_list (map snd (filter (\<lambda>(r, f). ID r = k) (sideFills order (Qty order) (oppositeSide b order))))"
  using sideRest_qtyOf [OF bookOK_resting(1) [OF ok], of k order "Qty order"]
    sideRest_qtyOf [OF bookOK_resting(2) [OF ok], of k order "Qty order"]
  by (simp add: matchedBook_def oppositeSide_def allOrders_sides Let_def)

text \<open>
  Claim C9. Matching conserves quantity. For a Limit or Market order processed on a
  well-formed book (with a quantity within \<open>int64\<close> and an id no resting order has),
  \<open>ProcessOrder\<close> returns, the order's original quantity is its remaining quantity plus
  the quantities of the returned trades, and every order \<open>p\<close> that rested on the book
  before has lost exactly the quantity of the trades that name it as the passive order:
  what rests under its id afterwards (nothing when it was filled and removed) is its
  former remaining quantity minus those trades.
\<close>

theorem matching_conserves_quantity:
  assumes ok: "bookOK b"
    and ty: "Type order = LimitOrder \<or> Type order = MarketOrder"
    and q: "int64 (Qty order)"
    and fresh: "ID order \<notin> ID ` set (allOrders b)"
  shows "\<exists>r. ProcessOrder b order timestamp = Inr r \<and>
           Qty order = RemainingQty (rOrder r) + sum_list (map TradeQty (rTrades r)) \<and>
           (\<forall>p\<in>set (allOrders b).
              qtyOf (ID p) (allOrders (rBook r))
              = RemainingQty p
                - sum_list (map TradeQty (filter (\<lambda>t. PassiveOrderID t = ID p) (rTrades r))))"
proof -
  have q': "Qty order < 2 ^ 63" using q by (simp add: int64_def)
  let ?opp = "oppositeSide b order"
  let ?fills = "sideFills order (Qty order) ?opp"
  let ?left = "sideLeft order (Qty order) ?opp"
  let ?trades = "fillTrades order timestamp (nextTradeID b) 0 ?fills"
  let ?b1 = "matchedBook b order"
  have ropp: "\<forall>r\<in>set (sideOrders ?opp). restingOK r"
    using bookOK_resting [OF ok] by (simp add: oppositeSide_def)
  have total: "Qty order = ?left + sum_list (map TradeQty ?trades)"
    using sideFills_total [OF ropp, of order "Qty order"] by simp
  have d: "distinct (map ID (allOrders b))" using ok by (simp add: bookOK_def)
  have pas: "qtyOf (ID p) (allOrders ?b1)
        = RemainingQty p - sum_list (map TradeQty (filter (\<lambda>t. PassiveOrderID t = ID p) ?trades))"
    if p: "p \<in> set (allOrders b)" for p
    using matchedBook_qtyOf [OF ok, of "ID p" order] qtyOf_distinct [OF d p]
    by (simp add: fillTrades_passive)
  show ?thesis
  proof (cases "Type order = LimitOrder")
    case True
    let ?o1 = "order\<lparr>RemainingQty := ?left\<rparr>"
    let ?b2 = "if 0 < ?left then insert ?b1 ?o1 else ?b1"
    have res: "ProcessOrder b order timestamp
        = Inr \<lparr>rBook = ?b2, rOrder = ?o1, rTrades = ?trades, rBBO = bookBBO ?b2\<rparr>"
      using True by (simp add: ProcessOrder_def processLimit_result [OF ok q'] Let_def)
    have "qtyOf (ID p) (allOrders ?b2) = qtyOf (ID p) (allOrders ?b1)"
      if p: "p \<in> set (allOrders b)" for p
    proof (cases "0 < ?left")
      case False
      then show ?thesis by simp
    next
      case True
      have "ID p \<noteq> ID order" using fresh p by (metis imageI)
      moreover have "qtyOf (ID p) (allOrders (insert ?b1 ?o1)) = qtyOf (ID p) (?o1 # allOrders ?b1)"
        by (rule qtyOf_mset) (simp add: insert_allOrders_mset)
      ultimately show ?thesis using True by simp
    qed
    with pas total show ?thesis
      unfolding res by simp
  next
    case False
    with ty have m: "Type order = MarketOrder" by simp
    have res: "ProcessOrder b order timestamp
        = Inr \<lparr>rBook = ?b1, rOrder = order\<lparr>RemainingQty := ?left\<rparr>, rTrades = ?trades,
               rBBO = bookBBO ?b1\<rparr>"
      using m by (simp add: ProcessOrder_def processMarket_result [OF ok q'] MarketOrder_def LimitOrder_def)
    from pas total show ?thesis
      unfolding res by simp
  qed
qed

theorem matching_conserves_quantity_witness:
  "bookOK fifoBook \<and> Type (makeMarket 100 Buy 15) = MarketOrder \<and> int64 (Qty (makeMarket 100 Buy 15))
   \<and> ID (makeMarket 100 Buy 15) \<notin> ID ` set (allOrders fifoBook)
   \<and> (\<exists>r. ProcessOrder fifoBook (makeMarket 100 Buy 15) 1 = Inr r \<and>
           15 = RemainingQty (rOrder r) + sum_list (map TradeQty (rTrades r)) \<and>
           qtyOf 2 (allOrders (rBook r))
              = 10 - sum_list (map TradeQty (filter (\<lambda>t. PassiveOrderID t = 2) (rTrades r))))"
proof -
  let ?m = "makeMarket 100 Buy 15"
  have t: "Type ?m = LimitOrder \<or> Type ?m = MarketOrder" by (simp add: makeMarket_def)
  have q: "int64 (Qty ?m)" by (simp add: makeMarket_def int64_def)
  have f: "ID ?m \<notin> ID ` set (allOrders fifoBook)"
    by (simp add: makeMarket_def fifoBook_def allOrders_def restingLimit_def makeLimit_def)
  have p: "restingLimit 2 Sell 1000 10 \<in> set (allOrders fifoBook)"
    by (simp add: fifoBook_def allOrders_def)
  from matching_conserves_quantity [OF fifoBook_ok t q f, of 1] obtain r where
    r: "ProcessOrder fifoBook ?m 1 = Inr r"
       "Qty ?m = RemainingQty (rOrder r) + sum_list (map TradeQty (rTrades r))"
       "\<forall>p\<in>set (allOrders fifoBook).
              qtyOf (ID p) (allOrders (rBook r))
              = RemainingQty p
                - sum_list (map TradeQty (filter (\<lambda>t. PassiveOrderID t = ID p) (rTrades r)))"
    by blast
  from r(3) p have "qtyOf (ID (restingLimit 2 Sell 1000 10)) (allOrders (rBook r))
      = RemainingQty (restingLimit 2 Sell 1000 10)
        - sum_list (map TradeQty (filter (\<lambda>t. PassiveOrderID t = ID (restingLimit 2 Sell 1000 10)) (rTrades r)))"
    by blast
  then have "qtyOf 2 (allOrders (rBook r))
              = 10 - sum_list (map TradeQty (filter (\<lambda>t. PassiveOrderID t = 2) (rTrades r)))"
    by (simp add: restingLimit_def makeLimit_def)
  with r(1,2) fifoBook_ok q f show ?thesis
    by (auto simp: makeMarket_def)
qed

section \<open>The frame of a cancel\<close>

text \<open>
  Claim C10. Cancelling a resting order affects only that order. For a Cancel whose
  target is on a well-formed book, \<open>ProcessOrder\<close> returns with no trades; each side of
  the book is the side as it was with the target taken out of its level and the level
  dropped if that emptied it (\<open>stripOrder\<close>), so every other resting order is the same
  record (same remaining quantity and price) in the same level, in the same order
  relative to the others; the order index loses only the target's key; and the trade-id
  counter is unchanged.
\<close>

theorem cancel_affects_only_target:
  assumes ok: "bookOK b"
    and ty: "Type cancel = CancelOrder"
    and target: "orderIndex b (CancelID cancel) = Some target"
  shows "\<exists>r. ProcessOrder b cancel timestamp = Inr r \<and> rTrades r = [] \<and>
           Bids (rBook r) = stripOrder (CancelID cancel) (Bids b) \<and>
           Asks (rBook r) = stripOrder (CancelID cancel) (Asks b) \<and>
           allOrders (rBook r) = filter (\<lambda>ord. ID ord \<noteq> CancelID cancel) (allOrders b) \<and>
           orderIndex (rBook r) = (orderIndex b)(CancelID cancel := None) \<and>
           nextTradeID (rBook r) = nextTradeID b"
proof -
  note r = processCancel_result [OF ok target]
  have "ProcessOrder b cancel timestamp = Inr (processCancel b cancel)"
    using ty by (simp add: ProcessOrder_def LimitOrder_def MarketOrder_def CancelOrder_def)
  moreover have "allOrders (rBook (processCancel b cancel))
      = filter (\<lambda>ord. ID ord \<noteq> CancelID cancel) (allOrders b)"
    by (simp add: allOrders_sides r(1,2) stripOrder_orders)
  ultimately show ?thesis using r by simp
qed

theorem cancel_affects_only_target_witness:
  "bookOK fifoBook \<and> Type (makeCancel 5 2) = CancelOrder
   \<and> orderIndex fifoBook (CancelID (makeCancel 5 2)) = Some (restingLimit 2 Sell 1000 10)
   \<and> (\<exists>r. ProcessOrder fifoBook (makeCancel 5 2) 7 = Inr r \<and> rTrades r = [] \<and>
         Bids (rBook r) = Bids fifoBook \<and>
         Asks (rBook r) = [\<lparr>LevelPrice = 1000,
              Orders = [restingLimit 1 Sell 1000 10, restingLimit 3 Sell 1000 10]\<rparr>] \<and>
         nextTradeID (rBook r) = 0)"
proof -
  let ?c = "makeCancel 5 2"
  have t: "Type ?c = CancelOrder" by (simp add: makeCancel_def)
  have i: "orderIndex fifoBook (CancelID ?c) = Some (restingLimit 2 Sell 1000 10)"
    by (simp add: makeCancel_def fifoBook_def)
  have b: "stripOrder (CancelID ?c) (Bids fifoBook) = Bids fifoBook"
    by (simp add: makeCancel_def fifoBook_def restingLimit_def makeLimit_def)
  have a: "stripOrder (CancelID ?c) (Asks fifoBook) = [\<lparr>LevelPrice = 1000,
              Orders = [restingLimit 1 Sell 1000 10, restingLimit 3 Sell 1000 10]\<rparr>]"
    by (simp add: makeCancel_def fifoBook_def restingLimit_def makeLimit_def)
  have n: "nextTradeID fifoBook = 0" by (simp add: fifoBook_def)
  from cancel_affects_only_target [OF fifoBook_ok t i, of 7] b a n t i fifoBook_ok
  show ?thesis by auto
qed

section \<open>Price-time priority\<close>

subsection \<open>The matching rule in the specification's words\<close>

text \<open>
  For a Limit order the walk stops at a level whose price is worse than the incoming
  price: a bid below the resting ask, or an ask above the resting bid.
\<close>

definition priceAllows :: "Order \<Rightarrow> PriceLevel \<Rightarrow> bool" where
  "priceAllows incoming level =
    (Type incoming = LimitOrder \<longrightarrow>
       (Side incoming = Buy \<longrightarrow> LevelPrice level \<le> Price incoming) \<and>
       (Side incoming = Sell \<longrightarrow> Price incoming \<le> LevelPrice level))"

text \<open>
  Within a level the orders are walked in FIFO order while the incoming order has
  quantity left. Each passive order is filled for the minimum of the two remaining
  quantities at its own price, and the trade records its 1-based index in the level at
  that moment: one more than the number of orders walked before it that are still in the
  level (an order leaves the level when its remaining quantity becomes zero). The result
  lists (passive id, price, quantity, queue position).
\<close>

fun specLevelWalk :: "int \<Rightarrow> nat \<Rightarrow> Order list \<Rightarrow> (nat \<times> int \<times> int \<times> int) list" where
  "specLevelWalk q ahead [] = []"
| "specLevelWalk q ahead (p # ps) =
    (if q > 0
     then (let fill = min q (RemainingQty p)
           in (ID p, Price p, fill, int ahead + 1) #
              specLevelWalk (q - fill) (if fill < RemainingQty p then ahead + 1 else ahead) ps)
     else [])"

text \<open>The opposite side is walked from the best level outward.\<close>

fun specWalk :: "Order \<Rightarrow> int \<Rightarrow> PriceLevel list \<Rightarrow> (nat \<times> int \<times> int \<times> int) list" where
  "specWalk incoming q [] = []"
| "specWalk incoming q (l # ls) =
    (if q > 0 \<and> priceAllows incoming l
     then (let fills = specLevelWalk q 0 (Orders l)
           in fills @ specWalk incoming (q - sum_list (map (\<lambda>(i, p, f, n). f) fills)) ls)
     else [])"

lemma priceAllows_crosses: "priceAllows incoming l = crosses incoming l"
  by (auto simp: priceAllows_def crosses_def Buy_def Sell_def)

lemma specLevelWalk_nonpos [simp]: "q \<le> 0 \<Longrightarrow> specLevelWalk q a os = []"
  by (cases os) simp_all

lemma specLevelWalk_fills:
  "\<forall>r\<in>set os. restingOK r \<Longrightarrow>
   specLevelWalk q a os = map (\<lambda>(r, f). (ID r, Price r, f, int a + 1)) (levelFills q os)"
proof (induction os arbitrary: q a)
  case Nil
  then show ?case by simp
next
  case (Cons p ps)
  show ?case
  proof (cases "0 < q")
    case False
    then show ?thesis by simp
  next
    case True
    show ?thesis
    proof (cases "q < RemainingQty p")
      case True
      with \<open>0 < q\<close> show ?thesis by (simp add: min_def)
    next
      case False
      then have m: "min q (RemainingQty p) = RemainingQty p" by simp
      have "specLevelWalk (q - RemainingQty p) a ps
          = map (\<lambda>(r, f). (ID r, Price r, f, int a + 1)) (levelFills (q - RemainingQty p) ps)"
        using Cons.prems by (intro Cons.IH) simp
      with \<open>0 < q\<close> m show ?thesis by (simp add: Let_def)
    qed
  qed
qed

lemma specLevelWalk_sum:
  assumes "\<forall>r\<in>set os. restingOK r"
  shows "q - sum_list (map (\<lambda>(i, p, f, n). f) (specLevelWalk q 0 os)) = leftQty q os"
proof -
  have "map (\<lambda>(i, p, f, n). f) (specLevelWalk q 0 os) = map snd (levelFills q os)"
    by (simp add: specLevelWalk_fills [OF assms] case_prod_unfold o_def)
  with levelFills_total [OF assms, of q] show ?thesis by simp
qed

lemma specWalk_fills:
  "\<forall>r\<in>set (sideOrders ls). restingOK r \<Longrightarrow>
   specWalk incoming q ls = map (\<lambda>(r, f). (ID r, Price r, f, 1)) (sideFills incoming q ls)"
proof (induction ls arbitrary: q)
  case Nil
  then show ?case by simp
next
  case (Cons l ls)
  have os: "\<forall>r\<in>set (Orders l). restingOK r" using Cons.prems by simp
  have ih: "specWalk incoming (leftQty q (Orders l)) ls
      = map (\<lambda>(r, f). (ID r, Price r, f, 1)) (sideFills incoming (leftQty q (Orders l)) ls)"
    using Cons.prems by (intro Cons.IH) simp
  have sm: "q - sum_list (map (\<lambda>(i, p, f, n). f) (specLevelWalk q 0 (Orders l))) = leftQty q (Orders l)"
    by (rule specLevelWalk_sum [OF os])
  have lv: "specLevelWalk q 0 (Orders l)
      = map (\<lambda>(r, f). (ID r, Price r, f, 1)) (levelFills q (Orders l))"
    by (simp add: specLevelWalk_fills [OF os])
  have "specWalk incoming q (l # ls) =
      (if q > 0 \<and> crosses incoming l
       then specLevelWalk q 0 (Orders l) @ specWalk incoming (leftQty q (Orders l)) ls else [])"
    by (simp add: priceAllows_crosses Let_def sm)
  then show ?case
    by (simp add: lv ih)
qed

lemma fillTrades_pos:
  "list_all (\<lambda>t. RestingQueuePos t = int i + 1) (fillTrades incoming timestamp tid i fs)"
  by (induction fs arbitrary: tid) (auto simp: mkTrade_def)

text \<open>
  Claim C1. For an incoming Limit or Market order on a well-formed book (quantity within
  \<open>int64\<close>), \<open>ProcessOrder\<close> returns and
  \<^item> the trades, read as (passive order id, price, quantity, resting queue position), are
    the walk of the specification: the opposite side from the best level outward, each
    level in FIFO order, each fill the minimum of the two remaining quantities at the
    passive order's price with its 1-based index at the moment of the fill, which is
    always 1 because every order walked before it has left the level;
  \<^item> the opposite side keeps what the walk left of it;
  \<^item> a Limit order with remaining quantity is inserted on its own side at its price,
    appended to the level of that price or as a new level at the sorted position, and
    is entered in the order index; otherwise (a filled Limit order, any Market order)
    the own side is as it was: a Market order never rests.
\<close>

theorem matching_follows_price_time_priority:
  assumes ok: "bookOK b"
    and ty: "Type order = LimitOrder \<or> Type order = MarketOrder"
    and q: "int64 (Qty order)"
  shows "\<exists>r. ProcessOrder b order timestamp = Inr r \<and>
           map (\<lambda>t. (PassiveOrderID t, TradePrice t, TradeQty t, RestingQueuePos t)) (rTrades r)
             = specWalk order (Qty order) (oppositeSide b order) \<and>
           list_all (\<lambda>t. RestingQueuePos t = 1) (rTrades r) \<and>
           oppositeSide (rBook r) order = sideRest order (Qty order) (oppositeSide b order) \<and>
           (if Type order = LimitOrder \<and> 0 < RemainingQty (rOrder r)
            then ownSide (rBook r) order = specInsert (ownSide b order) (rOrder r) (Side order = Buy)
                 \<and> orderIndex (rBook r) (ID order) = Some (rOrder r)
            else ownSide (rBook r) order = ownSide b order)"
proof -
  have q': "Qty order < 2 ^ 63" using q by (simp add: int64_def)
  let ?opp = "oppositeSide b order"
  let ?fills = "sideFills order (Qty order) ?opp"
  let ?left = "sideLeft order (Qty order) ?opp"
  let ?trades = "fillTrades order timestamp (nextTradeID b) 0 ?fills"
  let ?b1 = "matchedBook b order"
  let ?o1 = "order\<lparr>RemainingQty := ?left\<rparr>"
  have ropp: "\<forall>r\<in>set (sideOrders ?opp). restingOK r"
    using bookOK_resting [OF ok] by (simp add: oppositeSide_def)
  have view: "map (\<lambda>t. (PassiveOrderID t, TradePrice t, TradeQty t, RestingQueuePos t)) ?trades
        = specWalk order (Qty order) ?opp"
    by (simp add: fillTrades_view specWalk_fills [OF ropp])
  have pos: "list_all (\<lambda>t. RestingQueuePos t = 1) ?trades"
    using fillTrades_pos [of 0 order timestamp "nextTradeID b" ?fills] by simp
  show ?thesis
  proof (cases "Type order = LimitOrder")
    case False
    with ty have m: "Type order = MarketOrder" by simp
    have res: "ProcessOrder b order timestamp
        = Inr \<lparr>rBook = ?b1, rOrder = ?o1, rTrades = ?trades, rBBO = bookBBO ?b1\<rparr>"
      using m by (simp add: ProcessOrder_def processMarket_result [OF ok q'] MarketOrder_def LimitOrder_def)
    show ?thesis
      unfolding res using False view pos by (simp add: matchedBook_sides)
  next
    case True
    let ?b2 = "if 0 < ?left then insert ?b1 ?o1 else ?b1"
    have res: "ProcessOrder b order timestamp
        = Inr \<lparr>rBook = ?b2, rOrder = ?o1, rTrades = ?trades, rBBO = bookBBO ?b2\<rparr>"
      using True by (simp add: ProcessOrder_def processLimit_result [OF ok q'] Let_def)
    show ?thesis
    proof (cases "0 < ?left")
      case False
      then show ?thesis
        unfolding res using True view pos by (simp add: matchedBook_sides)
    next
      case left: True
      have s: "sorted_wrt (better (Side order = Buy)) (map LevelPrice (ownSide b order))"
        using ok by (auto simp: bookOK_def ownSide_def)
      have own: "ownSide (insert ?b1 ?o1) order = specInsert (ownSide b order) ?o1 (Side order = Buy)"
        using insertIntoLevels_spec [OF s, of ?o1]
        by (auto simp: insert_def ownSide_def Let_def matchedBook_def)
      have opp: "oppositeSide (insert ?b1 ?o1) order = sideRest order (Qty order) ?opp"
        by (auto simp: insert_def oppositeSide_def Let_def matchedBook_def)
      have idx: "orderIndex (insert ?b1 ?o1) (ID order) = Some ?o1"
        by (simp add: insert_def Let_def)
      show ?thesis
        unfolding res using True left view pos own opp idx by simp
    qed
  qed
qed


text \<open>A buy limit of 35 at 1000 on the sample book: it takes the three sells and rests with 5.\<close>

definition sweepingBuy :: Order where
  "sweepingBuy = makeLimit 100 Buy 1000 35"

theorem matching_follows_price_time_priority_witness:
  "bookOK fifoBook \<and> Type sweepingBuy = LimitOrder \<and> int64 (Qty sweepingBuy) \<and>
   (\<exists>r. ProcessOrder fifoBook sweepingBuy 1 = Inr r \<and>
        map (\<lambda>t. (PassiveOrderID t, TradePrice t, TradeQty t, RestingQueuePos t)) (rTrades r)
          = [(1, 1000, 10, 1), (2, 1000, 10, 1), (3, 1000, 10, 1)] \<and>
        Asks (rBook r) = [] \<and>
        rOrder r = sweepingBuy\<lparr>RemainingQty := 5\<rparr> \<and>
        Bids (rBook r) = [\<lparr>LevelPrice = 1000, Orders = [sweepingBuy\<lparr>RemainingQty := 5\<rparr>]\<rparr>,
                          \<lparr>LevelPrice = 990, Orders = [restingLimit 4 Buy 990 4]\<rparr>] \<and>
        orderIndex (rBook r) 100 = Some (sweepingBuy\<lparr>RemainingQty := 5\<rparr>))"
proof -
  have t: "Type sweepingBuy = LimitOrder \<or> Type sweepingBuy = MarketOrder"
    and t': "Type sweepingBuy = LimitOrder"
    by (simp_all add: sweepingBuy_def makeLimit_def)
  have q: "int64 (Qty sweepingBuy)" by (simp add: sweepingBuy_def makeLimit_def int64_def)
  have s: "Side sweepingBuy = Buy" "ID sweepingBuy = 100" "Qty sweepingBuy = 35"
    by (simp_all add: sweepingBuy_def makeLimit_def)
  have opp: "oppositeSide fifoBook sweepingBuy = Asks fifoBook"
    and own: "ownSide fifoBook sweepingBuy = Bids fifoBook"
    by (simp_all add: oppositeSide_def ownSide_def s)
  have left: "sideLeft sweepingBuy 35 (Asks fifoBook) = 5"
    by (simp add: fifoBook_def crosses_def restingLimit_def makeLimit_def sweepingBuy_def
        LimitOrder_def Buy_def Sell_def)
  have rest: "sideRest sweepingBuy 35 (Asks fifoBook) = []"
    by (simp add: fifoBook_def crosses_def restingLimit_def makeLimit_def sweepingBuy_def
        LimitOrder_def Buy_def Sell_def)
  have walk: "specWalk sweepingBuy 35 (Asks fifoBook) = [(1, 1000, 10, 1), (2, 1000, 10, 1), (3, 1000, 10, 1)]"
    by (simp add: fifoBook_def priceAllows_def restingLimit_def makeLimit_def sweepingBuy_def
        LimitOrder_def Buy_def Sell_def)
  have ins: "specInsert (Bids fifoBook) (sweepingBuy\<lparr>RemainingQty := 5\<rparr>) True
      = [\<lparr>LevelPrice = 1000, Orders = [sweepingBuy\<lparr>RemainingQty := 5\<rparr>]\<rparr>,
         \<lparr>LevelPrice = 990, Orders = [restingLimit 4 Buy 990 4]\<rparr>]"
    by (simp add: specInsert_def fifoBook_def better_def sweepingBuy_def makeLimit_def)
  have q': "Qty sweepingBuy < 2 ^ 63" by (simp add: s)
  have ro: "rOrder (processLimit fifoBook sweepingBuy 1) = sweepingBuy\<lparr>RemainingQty := 5\<rparr>"
    by (simp add: processLimit_result [OF fifoBook_ok q'] Let_def opp s left)
  from matching_follows_price_time_priority [OF fifoBook_ok t q, of 1] obtain r where
    r: "ProcessOrder fifoBook sweepingBuy 1 = Inr r"
      "map (\<lambda>t. (PassiveOrderID t, TradePrice t, TradeQty t, RestingQueuePos t)) (rTrades r)
             = specWalk sweepingBuy (Qty sweepingBuy) (oppositeSide fifoBook sweepingBuy)"
      "oppositeSide (rBook r) sweepingBuy
         = sideRest sweepingBuy (Qty sweepingBuy) (oppositeSide fifoBook sweepingBuy)"
      "(if Type sweepingBuy = LimitOrder \<and> 0 < RemainingQty (rOrder r)
            then ownSide (rBook r) sweepingBuy
                   = specInsert (ownSide fifoBook sweepingBuy) (rOrder r) (Side sweepingBuy = Buy)
                 \<and> orderIndex (rBook r) (ID sweepingBuy) = Some (rOrder r)
            else ownSide (rBook r) sweepingBuy = ownSide fifoBook sweepingBuy)"
    by blast
  have "r = processLimit fifoBook sweepingBuy 1"
    using r(1) t' by (simp add: ProcessOrder_def)
  with ro have o: "rOrder r = sweepingBuy\<lparr>RemainingQty := 5\<rparr>" by simp
  have a: "Asks (rBook r) = []"
    using r(3) by (simp add: oppositeSide_def s rest)
  have b: "Bids (rBook r) = [\<lparr>LevelPrice = 1000, Orders = [sweepingBuy\<lparr>RemainingQty := 5\<rparr>]\<rparr>,
                          \<lparr>LevelPrice = 990, Orders = [restingLimit 4 Buy 990 4]\<rparr>]"
    and i: "orderIndex (rBook r) 100 = Some (sweepingBuy\<lparr>RemainingQty := 5\<rparr>)"
    using r(4) by (simp_all add: o t' ownSide_def s ins)
  from r(1) r(2) a o b i fifoBook_ok t' q show ?thesis
    by (simp add: s opp walk)
qed

section \<open>Metrics collector: the mid price at a time (package metrics)\<close>

record bboSnapshot =
  timestamp :: int
  bbo :: BBO

text \<open>
  Of the collector's fields, \<open>midAtTime\<close> reads only \<open>bboHistory\<close>, the snapshots in the
  order the BBO updates were ingested.
\<close>

record Collector =
  bboHistory :: "bboSnapshot list"

definition midAtTime :: "Collector \<Rightarrow> int \<Rightarrow> int" where
  "midAtTime c t =
    (if length (bboHistory c) = 0 then 0
     else (let idx = sortSearch (length (bboHistory c)) (\<lambda>i. timestamp (bboHistory c ! i) > t)
           in if idx = 0 then MidPrice (bbo (bboHistory c ! 0))
              else MidPrice (bbo (bboHistory c ! (idx - 1)))))"

definition snapshotAt :: "int \<Rightarrow> int \<Rightarrow> bboSnapshot" where
  "snapshotAt ts mid = \<lparr>timestamp = ts, bbo = zeroBBO\<lparr>MidPrice := mid\<rparr>\<rparr>"

lemma midAtTime_search:
  assumes s: "sorted (map timestamp h)"
  shows "filter (\<lambda>s. timestamp s \<le> t) h
       = take (sortSearch (length h) (\<lambda>i. timestamp (h ! i) > t)) h"
proof -
  let ?f = "\<lambda>i. timestamp (h ! i) > t"
  let ?k = "sortSearch (length h) ?f"
  have mono: "\<forall>x y. x \<le> y \<and> y < length h \<and> ?f x \<longrightarrow> ?f y"
  proof (intro allI impI, elim conjE)
    fix x y assume "x \<le> y" "y < length h" "?f x"
    moreover from this s have "map timestamp h ! x \<le> map timestamp h ! y"
      by (intro sorted_nth_mono) simp_all
    ultimately show "?f y" by simp
  qed
  note sp = sortSearch_split [OF mono]
  have k: "?k \<le> length h" by (rule sortSearch_le)
  have a: "filter (\<lambda>s. timestamp s \<le> t) (take ?k h) = take ?k h"
  proof (intro filter_True ballI)
    fix x assume "x \<in> set (take ?k h)"
    then obtain i where "i < length (take ?k h)" "x = take ?k h ! i"
      by (auto simp: in_set_conv_nth)
    then have "i < ?k" "x = h ! i" by simp_all
    with sp show "timestamp x \<le> t" by (meson not_less)
  qed
  have b: "filter (\<lambda>s. timestamp s \<le> t) (drop ?k h) = []"
  proof (intro filter_False ballI)
    fix x assume "x \<in> set (drop ?k h)"
    then obtain i where "i < length (drop ?k h)" "x = drop ?k h ! i"
      by (auto simp: in_set_conv_nth)
    then have "?k \<le> ?k + i" "?k + i < length h" "x = h ! (?k + i)" using k by simp_all
    with sp show "\<not> timestamp x \<le> t" by (meson not_less)
  qed
  have "filter (\<lambda>s. timestamp s \<le> t) h
      = filter (\<lambda>s. timestamp s \<le> t) (take ?k h) @ filter (\<lambda>s. timestamp s \<le> t) (drop ?k h)"
    by (metis append_take_drop_id filter_append)
  with a b show ?thesis by simp
qed

text \<open>
  Claim C8, as amended. On a time-ordered history: an empty history gives 0; when some
  snapshot has a timestamp at or before \<open>t\<close>, the result is the mid price of the latest
  such snapshot (the last one in the history); when the history is not empty and every
  snapshot is later than \<open>t\<close>, the result is the mid price of the first snapshot.
\<close>

theorem midAtTime_latest_or_first:
  assumes "sorted (map timestamp (bboHistory c))"
  shows "midAtTime c t =
    (if bboHistory c = [] then 0
     else if filter (\<lambda>s. timestamp s \<le> t) (bboHistory c) = []
          then MidPrice (bbo (hd (bboHistory c)))
          else MidPrice (bbo (last (filter (\<lambda>s. timestamp s \<le> t) (bboHistory c)))))"
proof (cases "bboHistory c = []")
  case True
  then show ?thesis by (simp add: midAtTime_def)
next
  case False
  let ?h = "bboHistory c"
  let ?k = "sortSearch (length ?h) (\<lambda>i. timestamp (?h ! i) > t)"
  have f: "filter (\<lambda>s. timestamp s \<le> t) ?h = take ?k ?h"
    by (rule midAtTime_search [OF assms])
  have k: "?k \<le> length ?h" by (rule sortSearch_le)
  show ?thesis
  proof (cases "?k = 0")
    case True
    with False f show ?thesis by (simp add: midAtTime_def hd_conv_nth)
  next
    case nz: False
    then have "take ?k ?h \<noteq> []" using False by simp
    moreover have "last (take ?k ?h) = ?h ! (?k - 1)"
    proof -
      have ne: "take ?k ?h \<noteq> []" using nz False by simp
      have len: "length (take ?k ?h) = ?k" using k by simp
      have "last (take ?k ?h) = take ?k ?h ! (?k - 1)"
        using last_conv_nth [OF ne] len by simp
      also have "\<dots> = ?h ! (?k - 1)" using nz by (intro nth_take) simp
      finally show ?thesis .
    qed
    ultimately show ?thesis using False nz f by (simp add: midAtTime_def Let_def)
  qed
qed

theorem midAtTime_latest_or_first_witness:
  "sorted (map timestamp (bboHistory \<lparr>bboHistory = [snapshotAt 10 100, snapshotAt 20 102, snapshotAt 20 104, snapshotAt 30 106]\<rparr>))
   \<and> midAtTime \<lparr>bboHistory = [snapshotAt 10 100, snapshotAt 20 102, snapshotAt 20 104, snapshotAt 30 106]\<rparr> 25 = 104"
proof -
  let ?c = "\<lparr>bboHistory = [snapshotAt 10 100, snapshotAt 20 102, snapshotAt 20 104, snapshotAt 30 106]\<rparr>"
  have s: "sorted (map timestamp (bboHistory ?c))" by (simp add: snapshotAt_def)
  from midAtTime_latest_or_first [OF s, of 25] s show ?thesis
    by (simp add: snapshotAt_def)
qed

text \<open>
  The claim as stated fails when the history is not empty and \<open>t\<close> is earlier than every
  snapshot: no snapshot has a timestamp at or before \<open>t\<close>, and the lookup returns the mid
  price of the first snapshot, which is later than \<open>t\<close>.
\<close>

theorem midAtTime_before_first_snapshot:
  "midAtTime \<lparr>bboHistory = [snapshotAt 10 100]\<rparr> 5 = 100 \<and>
   \<not> (\<exists>s\<in>set (bboHistory \<lparr>bboHistory = [snapshotAt 10 100]\<rparr>). timestamp s \<le> 5)"
  by (simp add: midAtTime_def sortSearch_def searchLoop.simps snapshotAt_def Let_def)

end
